theory Spec2Isabelle
  imports Complex_Main
begin

section \<open>Errors\<close>

text \<open>
  The Python exceptions that the modelled code paths can raise. A function that can raise
  returns \<open>error + 'a\<close>, with \<open>Inl\<close> for the exception.
\<close>

datatype error = IndexError | ValueError

definition bindE :: "error + 'a \<Rightarrow> ('a \<Rightarrow> error + 'b) \<Rightarrow> error + 'b" where
  "bindE m f = (case m of Inl e \<Rightarrow> Inl e | Inr x \<Rightarrow> f x)"

section \<open>Arrays\<close>

text \<open>
  An n-dimensional array is a scalar (shape \<open>()\<close>) or a sequence of sub-arrays along its
  leading axis. \<open>int32\<close> entries are modelled as \<open>int\<close>, \<open>bool\<close> entries as
  \<open>bool\<close>. The \<open>float32\<close> values that a transition holds (states, rewards) are
  modelled as \<open>real\<close>: they are stored and read back, and finite. The values that the
  network computes and the loss arithmetic on them are \<open>float32\<close> values with the
  infinities and NaN, defined below.
\<close>

datatype 'a ndarray = Scalar 'a | Array "'a ndarray list"

fun shape :: "'a ndarray \<Rightarrow> nat list" where
  "shape (Scalar x) = []"
| "shape (Array []) = [0]"
| "shape (Array (r # rs)) = Suc (length rs) # shape r"

text \<open>\<open>has_shape a s\<close>: the array is rectangular, of shape \<open>s\<close>.\<close>

fun has_shape :: "'a ndarray \<Rightarrow> nat list \<Rightarrow> bool" where
  "has_shape (Scalar x) s = (s = [])"
| "has_shape (Array rs) s =
     (case s of [] \<Rightarrow> False
      | n # s' \<Rightarrow> length rs = n \<and> (\<forall>r \<in> set rs. has_shape r s'))"

text \<open>\<open>jnp.zeros(shape, dtype)\<close>, with the zero of the dtype given.\<close>

fun zeros :: "'a \<Rightarrow> nat list \<Rightarrow> 'a ndarray" where
  "zeros z [] = Scalar z"
| "zeros z (n # s) = Array (replicate n (zeros z s))"

text \<open>\<open>a.shape[0]\<close>; a scalar has the empty shape tuple.\<close>

definition shape0 :: "'a ndarray \<Rightarrow> error + nat" where
  "shape0 a = (case a of Scalar x \<Rightarrow> Inl IndexError | Array rs \<Rightarrow> Inr (length rs))"

text \<open>
  \<open>jnp.broadcast_to(v, s)\<close>: the dimensions of \<open>v\<close> are aligned with the trailing
  dimensions of \<open>s\<close>; a dimension of \<open>v\<close> must equal the target dimension or be 1; \<open>v\<close> may
  not have more dimensions than \<open>s\<close>. \<open>None\<close> is the library's ValueError.
\<close>

fun broadcast_to :: "'a ndarray \<Rightarrow> nat list \<Rightarrow> 'a ndarray option" where
  "broadcast_to (Scalar x) [] = Some (Scalar x)"
| "broadcast_to (Array rs) [] = None"
| "broadcast_to v (n # s) =
     (if length (shape v) < Suc (length s)
      then map_option (\<lambda>r. Array (replicate n r)) (broadcast_to v s)
      else (case v of
              Scalar x \<Rightarrow> None
            | Array rs \<Rightarrow>
                if length rs = n
                then map_option Array (those (map (\<lambda>r. broadcast_to r s) rs))
                else if length rs = 1
                then map_option (\<lambda>r. Array (replicate n r)) (broadcast_to (hd rs) s)
                else None))"

text \<open>Python's index normalisation: a negative index counts from the end.\<close>

definition normalize_index :: "int \<Rightarrow> nat \<Rightarrow> int" where
  "normalize_index i n = (if i < 0 then i + int n else i)"

text \<open>
  \<open>a.at[i].set(v)\<close> with a traced scalar index \<open>i\<close>, in JAX's default indexing mode:
  indexing a scalar or an axis of size 0 raises IndexError; \<open>v\<close> is broadcast to the shape
  of a row (ValueError if it cannot be); the write at an index that is out of bounds after
  normalisation is dropped.
\<close>

definition at_set :: "'a ndarray \<Rightarrow> int \<Rightarrow> 'a ndarray \<Rightarrow> error + 'a ndarray" where
  "at_set a i v =
     (case a of
        Scalar x \<Rightarrow> Inl IndexError
      | Array rs \<Rightarrow>
          (case rs of
             [] \<Rightarrow> Inl IndexError
           | r # _ \<Rightarrow>
               (case broadcast_to v (shape r) of
                  None \<Rightarrow> Inl ValueError
                | Some bv \<Rightarrow>
                    (let j = normalize_index i (length rs)
                     in if 0 \<le> j \<and> j < int (length rs)
                        then Inr (Array (rs[nat j := bv]))
                        else Inr a))))"

text \<open>
  \<open>a[i]\<close> with a traced scalar index \<open>i\<close>, in JAX's default indexing mode: indexing a
  scalar or an axis of size 0 raises IndexError; an index that is out of bounds after
  normalisation is clamped into the axis.
\<close>

definition clamp_index :: "int \<Rightarrow> nat \<Rightarrow> nat" where
  "clamp_index i n = nat (max 0 (min (normalize_index i n) (int n - 1)))"

definition getitem :: "'a ndarray \<Rightarrow> int \<Rightarrow> error + 'a ndarray" where
  "getitem a i =
     (case a of
        Scalar x \<Rightarrow> Inl IndexError
      | Array rs \<Rightarrow>
          (if rs = [] then Inl IndexError else Inr (rs ! clamp_index i (length rs))))"

section \<open>Random number library\<close>

text \<open>
  The functions of \<open>jax.random\<close> that the code calls are parameters of the model: each is a
  deterministic function of the key it is given. The library's contract has two parts.
  \<open>prng_ok\<close> is the range of a draw: \<open>randint\<close> draws from \<open>[minval, maxval)\<close>,
  \<open>choice\<close> with an integer \<open>a\<close> draws from \<open>[0, a)\<close>, \<open>uniform\<close> draws from
  \<open>[0, 1)\<close>. \<open>uniform_over\<close> below is the distribution of a draw over the keys.
\<close>

record 'k PRNG =
  random_split :: "'k \<Rightarrow> 'k \<times> 'k"
  random_randint :: "'k \<Rightarrow> int \<Rightarrow> int \<Rightarrow> int"
  random_choice :: "'k \<Rightarrow> nat \<Rightarrow> int"
  random_uniform :: "'k \<Rightarrow> real"

definition prng_ok :: "'k PRNG \<Rightarrow> bool" where
  "prng_ok R \<longleftrightarrow>
     (\<forall>k lo hi. lo < hi \<longrightarrow> lo \<le> random_randint R k lo hi \<and> random_randint R k lo hi < hi) \<and>
     (\<forall>k n. 0 < n \<longrightarrow> 0 \<le> random_choice R k n \<and> random_choice R k n < int n) \<and>
     (\<forall>k. 0 \<le> random_uniform R k \<and> random_uniform R k < 1)"

text \<open>
  The distribution of a draw. A key is drawn uniformly from a finite set \<open>K\<close> of keys;
  \<open>uniform_over K f S\<close> says that the value \<open>f key\<close> is then uniformly distributed
  over \<open>S\<close>: every element of \<open>S\<close> is the value at the same number of keys of
  \<open>K\<close>, that is, with probability \<open>1 / card S\<close>. The library documents
  \<open>randint\<close> and \<open>choice\<close> as uniform over their range, and \<open>split\<close> as giving
  keys that are again uniformly distributed.
\<close>

definition uniform_over :: "'k set \<Rightarrow> ('k \<Rightarrow> 'a) \<Rightarrow> 'a set \<Rightarrow> bool" where
  "uniform_over K f S \<longleftrightarrow>
     finite K \<and> K \<noteq> {} \<and> finite S \<and> f ` K \<subseteq> S \<and>
     (\<forall>v \<in> S. card {k \<in> K. f k = v} * card S = card K)"

text \<open>
  A small generator over natural-number keys that satisfies the contract, used to run the
  model on concrete inputs. As \<open>jax.random.randint\<close> does, it returns \<open>minval\<close> when the
  range is empty.
\<close>

definition demo_prng :: "nat PRNG" where
  "demo_prng =
     \<lparr> random_split = (\<lambda>k. (2 * k + 1, 2 * k + 2)),
       random_randint =
         (\<lambda>k lo hi. if hi \<le> lo then lo else lo + int (k div 2) mod (hi - lo)),
       random_choice = (\<lambda>k n. int ((k div 2) mod n)),
       random_uniform = (\<lambda>k. real (k mod 10) / 10) \<rparr>"

section \<open>Replay buffer (buffer.py)\<close>

record ReplayBufferStorage =
  states :: "real ndarray"
  actions :: "int ndarray"
  rewards :: "real ndarray"
  dones :: "bool ndarray"
  next_states :: "real ndarray"
  cursor :: int
  full :: bool

type_synonym Transition =
  "real ndarray \<times> int ndarray \<times> real ndarray \<times> bool ndarray \<times> real ndarray"

definition init_buffer :: "nat \<Rightarrow> nat list \<Rightarrow> ReplayBufferStorage" where
  "init_buffer buffer_size state_shape =
     \<lparr> states = zeros 0 (buffer_size # state_shape),
       actions = zeros 0 [buffer_size, 1],
       rewards = zeros 0 [buffer_size, 1],
       dones = zeros False [buffer_size, 1],
       next_states = zeros 0 (buffer_size # state_shape),
       cursor = 0,
       full = False \<rparr>"

text \<open>\<open>int32\<close> arithmetic wraps around.\<close>

definition int32 :: "int \<Rightarrow> int" where
  "int32 x = (x + 2 ^ 31) mod 2 ^ 32 - 2 ^ 31"

definition add_transition :: "ReplayBufferStorage \<Rightarrow> Transition \<Rightarrow> error + ReplayBufferStorage" where
  "add_transition buffer transition =
     (case transition of (state, action, reward, done, next_state) \<Rightarrow>
        bindE (shape0 (rewards buffer)) (\<lambda>max_buffer_size.
        bindE (at_set (states buffer) (cursor buffer) state) (\<lambda>new_states.
        bindE (at_set (actions buffer) (cursor buffer) action) (\<lambda>new_actions.
        bindE (at_set (rewards buffer) (cursor buffer) reward) (\<lambda>new_rewards.
        bindE (at_set (dones buffer) (cursor buffer) done) (\<lambda>new_dones.
        bindE (at_set (next_states buffer) (cursor buffer) next_state) (\<lambda>new_next_states.
          let new_cursor = int32 (cursor buffer + 1) mod int max_buffer_size;
              new_full = (if new_cursor = 0 then True else full buffer)
          in Inr \<lparr> states = new_states, actions = new_actions, rewards = new_rewards,
                   dones = new_dones, next_states = new_next_states,
                   cursor = new_cursor, full = new_full \<rparr>)))))))"

text \<open>
  The index \<open>i\<close> that \<open>sample_transition\<close> draws, and the transition it reads at that
  index.
\<close>

definition sample_index :: "'k PRNG \<Rightarrow> 'k \<Rightarrow> ReplayBufferStorage \<Rightarrow> error + int" where
  "sample_index R rng buffer =
     bindE (shape0 (rewards buffer)) (\<lambda>max_buffer_size.
       let max_buffer_size = (if full buffer = True then int max_buffer_size else cursor buffer);
           (key, subkey) = random_split R rng
       in Inr (random_randint R subkey 0 max_buffer_size))"

definition sample_transition :: "'k PRNG \<Rightarrow> 'k \<Rightarrow> ReplayBufferStorage \<Rightarrow> error + Transition" where
  "sample_transition R rng buffer =
     bindE (sample_index R rng buffer) (\<lambda>i.
     bindE (getitem (states buffer) i) (\<lambda>sampled_states.
     bindE (getitem (actions buffer) i) (\<lambda>sampled_actions.
     bindE (getitem (rewards buffer) i) (\<lambda>sampled_rewards.
     bindE (getitem (dones buffer) i) (\<lambda>sampled_dones.
     bindE (getitem (next_states buffer) i) (\<lambda>samped_next_states.
       Inr (sampled_states, sampled_actions, sampled_rewards, sampled_dones,
            samped_next_states)))))))"

text \<open>A sequence of \<open>add_transition\<close> calls, stopping at the first exception.\<close>

fun add_all :: "ReplayBufferStorage \<Rightarrow> Transition list \<Rightarrow> error + ReplayBufferStorage" where
  "add_all buffer [] = Inr buffer"
| "add_all buffer (t # ts) = bindE (add_transition buffer t) (\<lambda>b. add_all b ts)"

section \<open>Floating-point values\<close>

text \<open>
  A \<open>float32\<close> value is finite, an infinity or NaN. The arithmetic follows IEEE 754 on
  the infinities and NaN: NaN propagates, \<open>inf - inf\<close> and \<open>0 * inf\<close> are NaN. On
  finite operands the result is the exact one: rounding, overflow of a finite result and
  the sign of zero are not modelled.
\<close>

datatype float32 = Finite real | PosInf | NegInf | NaN

fun is_finite :: "float32 \<Rightarrow> bool" where
  "is_finite (Finite x) = True"
| "is_finite _ = False"

fun fneg :: "float32 \<Rightarrow> float32" where
  "fneg (Finite x) = Finite (- x)"
| "fneg PosInf = NegInf"
| "fneg NegInf = PosInf"
| "fneg NaN = NaN"

fun fadd :: "float32 \<Rightarrow> float32 \<Rightarrow> float32" where
  "fadd (Finite x) (Finite y) = Finite (x + y)"
| "fadd (Finite x) PosInf = PosInf"
| "fadd (Finite x) NegInf = NegInf"
| "fadd PosInf (Finite y) = PosInf"
| "fadd PosInf PosInf = PosInf"
| "fadd NegInf (Finite y) = NegInf"
| "fadd NegInf NegInf = NegInf"
| "fadd _ _ = NaN"

definition fsub :: "float32 \<Rightarrow> float32 \<Rightarrow> float32" where
  "fsub x y = fadd x (fneg y)"

fun fmul :: "float32 \<Rightarrow> float32 \<Rightarrow> float32" where
  "fmul (Finite x) (Finite y) = Finite (x * y)"
| "fmul (Finite x) PosInf = (if x = 0 then NaN else if 0 < x then PosInf else NegInf)"
| "fmul (Finite x) NegInf = (if x = 0 then NaN else if 0 < x then NegInf else PosInf)"
| "fmul PosInf (Finite y) = (if y = 0 then NaN else if 0 < y then PosInf else NegInf)"
| "fmul NegInf (Finite y) = (if y = 0 then NaN else if 0 < y then NegInf else PosInf)"
| "fmul PosInf PosInf = PosInf"
| "fmul PosInf NegInf = NegInf"
| "fmul NegInf PosInf = NegInf"
| "fmul NegInf NegInf = PosInf"
| "fmul _ _ = NaN"

text \<open>The comparison \<open>x < y\<close>: false whenever an operand is NaN.\<close>

fun fless :: "float32 \<Rightarrow> float32 \<Rightarrow> bool" where
  "fless (Finite x) (Finite y) = (x < y)"
| "fless (Finite x) PosInf = True"
| "fless NegInf (Finite y) = True"
| "fless NegInf PosInf = True"
| "fless _ _ = False"

text \<open>
  The conversion of a real number to \<open>float32\<close> without rounding: a number at or
  beyond the overflow threshold \<open>2^128 - 2^103\<close> becomes an infinity.
\<close>

definition to_float32 :: "real \<Rightarrow> float32" where
  "to_float32 x =
     (if 2 ^ 128 - 2 ^ 103 \<le> x then PosInf
      else if x \<le> - (2 ^ 128 - 2 ^ 103) then NegInf
      else Finite x)"

section \<open>Array arithmetic\<close>

text \<open>
  \<open>jnp.broadcast_shapes\<close>: shapes are aligned at their trailing dimensions; two
  dimensions are compatible when they are equal or one of them is 1. \<open>broadcast_dims\<close>
  works on the reversed shapes.
\<close>

fun broadcast_dims :: "nat list \<Rightarrow> nat list \<Rightarrow> nat list option" where
  "broadcast_dims [] ys = Some ys"
| "broadcast_dims (x # xs) [] = Some (x # xs)"
| "broadcast_dims (x # xs) (y # ys) =
     (if x = y \<or> y = 1 then map_option ((#) x) (broadcast_dims xs ys)
      else if x = 1 then map_option ((#) y) (broadcast_dims xs ys)
      else None)"

definition broadcast_shapes :: "nat list \<Rightarrow> nat list \<Rightarrow> nat list option" where
  "broadcast_shapes a b = map_option rev (broadcast_dims (rev a) (rev b))"

text \<open>Element-wise combination of two arrays of the same shape.\<close>

function zip_nd :: "('a \<Rightarrow> 'b \<Rightarrow> 'c) \<Rightarrow> 'a ndarray \<Rightarrow> 'b ndarray \<Rightarrow> 'c ndarray" where
  "zip_nd f (Scalar x) (Scalar y) = Scalar (f x y)"
| "zip_nd f (Array xs) (Array ys) = Array (map (\<lambda>(x, y). zip_nd f x y) (zip xs ys))"
| "zip_nd f (Scalar x) (Array ys) = Array []"
| "zip_nd f (Array xs) (Scalar y) = Array []"
  by pat_completeness auto
termination
  by (relation "measure (\<lambda>(f, a, b). size a)")
     (auto dest!: set_zip_leftD simp: less_Suc_eq_le intro: size_list_estimation')

text \<open>
  A binary element-wise operator of \<open>jax.numpy\<close> (\<open>+\<close>, \<open>-\<close>, \<open>*\<close>): both operands are
  broadcast to their common shape; shapes with no common shape raise ValueError.
\<close>

definition binop :: "('a \<Rightarrow> 'b \<Rightarrow> 'c) \<Rightarrow> 'a ndarray \<Rightarrow> 'b ndarray \<Rightarrow> error + 'c ndarray" where
  "binop f a b =
     (case broadcast_shapes (shape a) (shape b) of
        None \<Rightarrow> Inl ValueError
      | Some s \<Rightarrow>
          (case (broadcast_to a s, broadcast_to b s) of
             (Some a', Some b') \<Rightarrow> Inr (zip_nd f a' b')
           | _ \<Rightarrow> Inl ValueError))"

text \<open>\<open>jnp.sum(a)\<close>: the sum of all entries, of a \<open>float32\<close> array and of a real one.\<close>

fun fsum_nd :: "float32 ndarray \<Rightarrow> float32" where
  "fsum_nd (Scalar x) = x"
| "fsum_nd (Array xs) = fold fadd (map fsum_nd xs) (Finite 0)"

fun sum_nd :: "real ndarray \<Rightarrow> real" where
  "sum_nd (Scalar x) = x"
| "sum_nd (Array xs) = sum_list (map sum_nd xs)"

text \<open>A one-dimensional array from the list of its entries; \<open>jnp.arange(n)\<close>.\<close>

definition vec :: "'a list \<Rightarrow> 'a ndarray" where
  "vec xs = Array (map Scalar xs)"

definition arange :: "nat \<Rightarrow> int ndarray" where
  "arange n = vec (map int [0..<n])"

text \<open>
  \<open>a[idx]\<close> with an integer array \<open>idx\<close>: the result has the shape of \<open>idx\<close> followed by
  the shape of a row; every index is normalised and clamped as in \<open>getitem\<close>.
\<close>

fun subst_nd :: "('i \<Rightarrow> 'a ndarray) \<Rightarrow> 'i ndarray \<Rightarrow> 'a ndarray" where
  "subst_nd f (Scalar i) = f i"
| "subst_nd f (Array xs) = Array (map (subst_nd f) xs)"

definition getitem_arr :: "'a ndarray \<Rightarrow> int ndarray \<Rightarrow> error + 'a ndarray" where
  "getitem_arr a idx =
     (case a of
        Scalar x \<Rightarrow> Inl IndexError
      | Array rs \<Rightarrow>
          (if rs = [] then Inl IndexError
           else Inr (subst_nd (\<lambda>i. rs ! clamp_index i (length rs)) idx)))"

text \<open>
  \<open>jnp.max\<close> and \<open>jnp.argmax\<close> of a one-dimensional array: the largest entry, and the
  index of its first occurrence. A NaN entry counts as the largest: \<open>jnp.max\<close> is NaN
  and \<open>jnp.argmax\<close> is the index of the first NaN. Both raise ValueError on an empty
  array.
\<close>

definition fmax :: "float32 \<Rightarrow> float32 \<Rightarrow> float32" where
  "fmax x y = (if x = NaN \<or> y = NaN then NaN else if fless x y then y else x)"

definition max_value :: "float32 list \<Rightarrow> float32" where
  "max_value xs = fold fmax (tl xs) (hd xs)"

definition amax :: "float32 list \<Rightarrow> error + float32" where
  "amax xs = (if xs = [] then Inl ValueError else Inr (max_value xs))"

definition argmax :: "float32 list \<Rightarrow> error + int" where
  "argmax xs =
     (if xs = [] then Inl ValueError
      else Inr (int (length (takeWhile (\<lambda>x. x \<noteq> max_value xs) xs))))"

section \<open>Agent (model.py)\<close>

text \<open>
  The Q-network is a parameter of the model: \<open>dqn_apply dqn params state\<close> is
  \<open>dqn.apply(params, state)\<close> for a single state (no batch dimension), the
  one-dimensional array of the Q-values of the actions, or the exception the network raises.
  \<open>dqn_ok\<close>: the network has at least one action and returns one Q-value per action.
\<close>

record 'p DQN =
  n_actions :: nat
  dqn_apply :: "'p \<Rightarrow> real ndarray \<Rightarrow> error + float32 list"

definition dqn_ok :: "'p DQN \<Rightarrow> bool" where
  "dqn_ok dqn \<longleftrightarrow>
     0 < n_actions dqn \<and>
     (\<forall>params state q. dqn_apply dqn params state = Inr q \<longrightarrow> length q = n_actions dqn)"

definition select_action ::
  "'p DQN \<Rightarrow> 'k PRNG \<Rightarrow> 'k \<Rightarrow> 'p \<Rightarrow> real ndarray \<Rightarrow> real \<Rightarrow> error + int" where
  "select_action dqn R rng params state epsilon =
     bindE (dqn_apply dqn params state) (\<lambda>q_values.
     bindE (argmax q_values) (\<lambda>max_action.
       let (key, subkey) = random_split R rng;
           random_action = random_choice R subkey (length q_values);
           (key, subkey) = random_split R key;
           condition = (random_uniform R subkey < epsilon);
           action = (if condition then random_action else max_action)
       in Inr action))"

text \<open>
  The predicted value \<open>q_values[jnp.arange(q_values.shape[0])][action]\<close>, common to both
  losses.
\<close>

definition q_value_at ::
  "'p DQN \<Rightarrow> 'p \<Rightarrow> real ndarray \<Rightarrow> int ndarray \<Rightarrow> error + float32 ndarray" where
  "q_value_at dqn params state action =
     bindE (dqn_apply dqn params state) (\<lambda>q_values.
     bindE (getitem_arr (vec q_values) (arange (length q_values))) (\<lambda>q_rows.
       getitem_arr q_rows action))"

text \<open>
  \<open>reward + gamma * (1.0 - done) * v\<close>, with the products taken left to right as Python
  does. The reward and \<open>gamma\<close> are finite; \<open>v\<close> comes from the network and may be an
  infinity or NaN. The value \<open>v\<close> is passed in evaluated: on rectangular arrays the
  difference and the product with the scalar \<open>gamma\<close> cannot raise, so this does not
  change which exception is raised.
\<close>

definition bootstrap_target ::
  "real ndarray \<Rightarrow> real \<Rightarrow> bool ndarray \<Rightarrow> float32 ndarray \<Rightarrow> error + float32 ndarray" where
  "bootstrap_target reward gamma done v =
     bindE (binop fsub (Scalar (Finite 1)) (map_ndarray (\<lambda>d. Finite (of_bool d)) done))
       (\<lambda>not_done.
     bindE (binop fmul (Scalar (Finite gamma)) not_done) (\<lambda>discount.
     bindE (binop fmul discount v) (\<lambda>bootstrap.
       binop fadd (map_ndarray Finite reward) bootstrap)))"

text \<open>The TD target of \<open>compute_loss\<close>.\<close>

definition td_target ::
  "'p DQN \<Rightarrow> 'p \<Rightarrow> real ndarray \<Rightarrow> bool ndarray \<Rightarrow> real ndarray \<Rightarrow> real
     \<Rightarrow> error + float32 ndarray" where
  "td_target dqn target_params reward done next_state gamma =
     bindE (dqn_apply dqn target_params next_state) (\<lambda>next_q_values.
     bindE (amax next_q_values) (\<lambda>m.
       bootstrap_target reward gamma done (Scalar m)))"

text \<open>\<open>jnp.sum((q_value - target_q_value) ** 2)\<close>.\<close>

definition squared_error :: "float32 ndarray \<Rightarrow> float32 ndarray \<Rightarrow> error + float32" where
  "squared_error q_value target_q_value =
     bindE (binop fsub q_value target_q_value) (\<lambda>d.
       Inr (fsum_nd (map_ndarray (\<lambda>x. fmul x x) d)))"

definition compute_loss :: "'p DQN \<Rightarrow> 'p \<Rightarrow> 'p \<Rightarrow> Transition \<Rightarrow> real \<Rightarrow> error + float32" where
  "compute_loss dqn params target_params transition gamma =
     (case transition of (state, action, reward, done, next_state) \<Rightarrow>
        bindE (q_value_at dqn params state action) (\<lambda>q_value.
        bindE (td_target dqn target_params reward done next_state gamma) (\<lambda>target_q_value.
          squared_error q_value target_q_value)))"

text \<open>The TD target of \<open>compute_loss_double_dqn\<close>.\<close>

definition td_target_double_dqn ::
  "'p DQN \<Rightarrow> 'p \<Rightarrow> 'p \<Rightarrow> real ndarray \<Rightarrow> bool ndarray \<Rightarrow> real ndarray \<Rightarrow> real
     \<Rightarrow> error + float32 ndarray" where
  "td_target_double_dqn dqn params target_params reward done next_state gamma =
     bindE (dqn_apply dqn params next_state) (\<lambda>next_q_values.
     bindE (argmax next_q_values) (\<lambda>next_actions.
     bindE (dqn_apply dqn target_params next_state) (\<lambda>target_q_values.
     bindE (getitem_arr (vec target_q_values) (arange (length target_q_values))) (\<lambda>target_rows.
     bindE (getitem_arr target_rows (Scalar next_actions)) (\<lambda>v.
       bootstrap_target reward gamma done v)))))"

definition compute_loss_double_dqn ::
  "'p DQN \<Rightarrow> 'p \<Rightarrow> 'p \<Rightarrow> Transition \<Rightarrow> real \<Rightarrow> error + float32" where
  "compute_loss_double_dqn dqn params target_params transition gamma =
     (case transition of (state, action, reward, done, next_state) \<Rightarrow>
        bindE (q_value_at dqn params state action) (\<lambda>q_value.
        bindE (td_target_double_dqn dqn params target_params reward done next_state gamma)
          (\<lambda>target_q_value.
          squared_error q_value target_q_value)))"

text \<open>
  \<open>flax.training.train_state.TrainState\<close> with the field \<open>target_params\<close> that
  \<open>DQNTrainState\<close> adds.
\<close>

record ('p, 'f, 't, 'o) DQNTrainState =
  step :: int
  apply_fn :: 'f
  params :: 'p
  tx :: 't
  opt_state :: 'o
  target_params :: 'p

definition update_target ::
  "('p, 'f, 't, 'o) DQNTrainState \<Rightarrow> ('p, 'f, 't, 'o) DQNTrainState" where
  "update_target state =
     (let new_state = state;
          new_state = state\<lparr>target_params := params state\<rparr>
      in new_state)"

section \<open>Notions used in the statements\<close>

text \<open>The sub-arrays along the leading axis.\<close>

fun rows :: "'a ndarray \<Rightarrow> 'a ndarray list" where
  "rows (Scalar x) = []"
| "rows (Array rs) = rs"

text \<open>The transition held by row \<open>i\<close> of the five data arrays.\<close>

definition row_at :: "ReplayBufferStorage \<Rightarrow> nat \<Rightarrow> Transition" where
  "row_at b i =
     (rows (states b) ! i, rows (actions b) ! i, rows (rewards b) ! i, rows (dones b) ! i,
      rows (next_states b) ! i)"

text \<open>
  \<open>same_rows_except i a a'\<close>: the arrays \<open>a\<close> and \<open>a'\<close> have the same rows, except
  possibly the row that the index \<open>i\<close> denotes.
\<close>

definition same_rows_except :: "int \<Rightarrow> 'a ndarray \<Rightarrow> 'a ndarray \<Rightarrow> bool" where
  "same_rows_except i a a' \<longleftrightarrow>
     length (rows a') = length (rows a) \<and>
     (\<forall>j < length (rows a). int j \<noteq> normalize_index i (length (rows a)) \<longrightarrow>
        rows a' ! j = rows a ! j)"

text \<open>
  The invariant of the storage for capacity \<open>n\<close>: the five data arrays have leading
  dimension \<open>n\<close> and the cursor is in \<open>[0, n)\<close>.
\<close>

definition buffer_inv :: "nat \<Rightarrow> ReplayBufferStorage \<Rightarrow> bool" where
  "buffer_inv n b \<longleftrightarrow>
     shape0 (states b) = Inr n \<and> shape0 (actions b) = Inr n \<and> shape0 (rewards b) = Inr n \<and>
     shape0 (dones b) = Inr n \<and> shape0 (next_states b) = Inr n \<and>
     0 \<le> cursor b \<and> cursor b < int n"

text \<open>
  A transition of the shapes that \<open>add_transition\<close> documents for a buffer of state shape
  \<open>s\<close>: the shapes of the storage without the leading dimension.
\<close>

definition transition_ok :: "nat list \<Rightarrow> Transition \<Rightarrow> bool" where
  "transition_ok s t \<longleftrightarrow>
     (case t of (state, action, reward, done, next_state) \<Rightarrow>
        has_shape state s \<and> has_shape action [1] \<and> has_shape reward [1] \<and>
        has_shape done [1] \<and> has_shape next_state s)"

text \<open>A transition of state shape \<open>(1,)\<close>, used to run the model on concrete inputs.\<close>

definition demo_transition :: "int \<Rightarrow> Transition" where
  "demo_transition k =
     (Array [Scalar (real_of_int k)], Array [Scalar k], Array [Scalar 1], Array [Scalar False],
      Array [Scalar (real_of_int k + 1)])"

text \<open>
  \<open>buffer_shaped n s b\<close>: the five data arrays are rectangular, of the shapes that
  \<open>init_buffer n s\<close> allocates.
\<close>

definition buffer_shaped :: "nat \<Rightarrow> nat list \<Rightarrow> ReplayBufferStorage \<Rightarrow> bool" where
  "buffer_shaped n s b \<longleftrightarrow>
     has_shape (states b) (n # s) \<and> has_shape (actions b) [n, 1] \<and>
     has_shape (rewards b) [n, 1] \<and> has_shape (dones b) [n, 1] \<and>
     has_shape (next_states b) (n # s)"

text \<open>
  NumPy's rule for broadcasting an array of shape \<open>vs\<close> to the shape \<open>s\<close>: \<open>vs\<close> has
  no more dimensions than \<open>s\<close> and, aligned at the trailing dimensions, each dimension
  of \<open>vs\<close> equals the one of \<open>s\<close> or is 1.
\<close>

definition broadcastable :: "nat list \<Rightarrow> nat list \<Rightarrow> bool" where
  "broadcastable vs s \<longleftrightarrow>
     length vs \<le> length s \<and>
     list_all2 (\<lambda>d t. d = t \<or> d = 1) vs (drop (length s - length vs) s)"

text \<open>
  A network with two actions, used to run the model on concrete inputs: the parameters
  are two weights, and the Q-value of an action is its weight times the sum of the entries
  of the state, as a \<open>float32\<close> value (an infinity when the product overflows).
\<close>

definition demo_dqn :: "(real \<times> real) DQN" where
  "demo_dqn =
     \<lparr> n_actions = 2,
       dqn_apply =
         (\<lambda>w state. Inr [to_float32 (fst w * sum_nd state), to_float32 (snd w * sum_nd state)]) \<rparr>"

section \<open>Properties of the replay buffer\<close>

lemma bindE_Inl [simp]: "bindE (Inl e) f = Inl e"
  by (simp add: bindE_def)

lemma bindE_Inr [simp]: "bindE (Inr x) f = f x"
  by (simp add: bindE_def)

lemma bindE_eq_Inr: "bindE m f = Inr y \<longleftrightarrow> (\<exists>x. m = Inr x \<and> f x = Inr y)"
  by (cases m) simp_all

lemma at_set_Inr:
  assumes "at_set a i v = Inr a'"
  shows "\<exists>rs bv. a = Array rs \<and> rs \<noteq> [] \<and> broadcast_to v (shape (hd rs)) = Some bv \<and>
           a' = Array (if 0 \<le> normalize_index i (length rs) \<and>
                          normalize_index i (length rs) < int (length rs)
                       then rs[nat (normalize_index i (length rs)) := bv] else rs)"
  using assms
  by (auto simp: at_set_def Let_def split: ndarray.splits list.splits option.splits if_splits)

lemma at_set_length:
  "at_set a i v = Inr a' \<Longrightarrow>
     length (rows a') = length (rows a) \<and> rows a \<noteq> [] \<and> shape0 a' = shape0 a"
  by (drule at_set_Inr) (auto simp: shape0_def)

lemma at_set_other_rows:
  "at_set a i v = Inr a' \<Longrightarrow> int j \<noteq> normalize_index i (length (rows a)) \<Longrightarrow>
     rows a' ! j = rows a ! j"
  by (drule at_set_Inr) auto

lemma at_set_same_rows_except:
  "at_set a i v = Inr a' \<Longrightarrow> same_rows_except i a a'"
  unfolding same_rows_except_def
  using at_set_length [of a i v a'] at_set_other_rows [of a i v a'] by blast

lemma add_transition_Inr:
  assumes "add_transition b (state, action, reward, done, next_state) = Inr b'"
  shows "\<exists>n. shape0 (rewards b) = Inr n \<and>
           at_set (states b) (cursor b) state = Inr (states b') \<and>
           at_set (actions b) (cursor b) action = Inr (actions b') \<and>
           at_set (rewards b) (cursor b) reward = Inr (rewards b') \<and>
           at_set (dones b) (cursor b) done = Inr (dones b') \<and>
           at_set (next_states b) (cursor b) next_state = Inr (next_states b') \<and>
           cursor b' = int32 (cursor b + 1) mod int n \<and>
           full b' = (if cursor b' = 0 then True else full b)"
  using assms
  by (auto simp: add_transition_def bindE_eq_Inr Let_def)

lemma replicate_numeral: "replicate (numeral k) x = x # replicate (pred_numeral k) x"
  by (simp add: numeral_eq_Suc)

lemma list_update_numeral: "(x # xs)[numeral k := y] = x # xs[pred_numeral k := y]"
  by (simp add: numeral_eq_Suc)

lemmas run_simps = replicate_numeral list_update_numeral
  add_transition_def init_buffer_def at_set_def shape0_def normalize_index_def int32_def
  Let_def demo_transition_def getitem_def clamp_index_def

text \<open>
  C9. Whenever \<open>add_transition\<close> returns a storage, each of the five data arrays has the
  rows it had before, except the row that the cursor denotes: every other row is unchanged.
  For a cursor that is not negative, the row it denotes is the row of that index: every row
  at an index different from the cursor holds the same transition as before.
\<close>

theorem add_transition_frame:
  assumes "add_transition b t = Inr b'"
  shows "same_rows_except (cursor b) (states b) (states b') \<and>
         same_rows_except (cursor b) (actions b) (actions b') \<and>
         same_rows_except (cursor b) (rewards b) (rewards b') \<and>
         same_rows_except (cursor b) (dones b) (dones b') \<and>
         same_rows_except (cursor b) (next_states b) (next_states b') \<and>
         (0 \<le> cursor b \<longrightarrow> (\<forall>j. int j \<noteq> cursor b \<longrightarrow> row_at b' j = row_at b j))"
proof -
  obtain state action reward dn next_state
    where t: "t = (state, action, reward, dn, next_state)"
    by (cases t) auto
  from add_transition_Inr [OF assms [unfolded t]] have
    w: "at_set (states b) (cursor b) state = Inr (states b')"
      "at_set (actions b) (cursor b) action = Inr (actions b')"
      "at_set (rewards b) (cursor b) reward = Inr (rewards b')"
      "at_set (dones b) (cursor b) dn = Inr (dones b')"
      "at_set (next_states b) (cursor b) next_state = Inr (next_states b')"
    by blast+
  have "row_at b' j = row_at b j" if "0 \<le> cursor b" "int j \<noteq> cursor b" for j
  proof -
    from that have "int j \<noteq> normalize_index (cursor b) n" for n
      by (simp add: normalize_index_def)
    then show ?thesis
      by (simp add: row_at_def at_set_other_rows [OF w(1)] at_set_other_rows [OF w(2)]
          at_set_other_rows [OF w(3)] at_set_other_rows [OF w(4)] at_set_other_rows [OF w(5)])
  qed
  with w show ?thesis
    by (simp add: at_set_same_rows_except)
qed

theorem add_transition_frame_witness:
  "\<exists>b'. b' = \<lparr> states = Array [Array [Scalar 5], Array [Scalar 0]],
                actions = Array [Array [Scalar 5], Array [Scalar 0]],
                rewards = Array [Array [Scalar 1], Array [Scalar 0]],
                dones = Array [Array [Scalar False], Array [Scalar False]],
                next_states = Array [Array [Scalar 6], Array [Scalar 0]],
                cursor = 1, full = False \<rparr> \<and>
     add_transition (init_buffer 2 [1]) (demo_transition 5) = Inr b' \<and>
     same_rows_except 0 (states (init_buffer 2 [1])) (states b') \<and>
     same_rows_except 0 (actions (init_buffer 2 [1])) (actions b') \<and>
     same_rows_except 0 (rewards (init_buffer 2 [1])) (rewards b') \<and>
     same_rows_except 0 (dones (init_buffer 2 [1])) (dones b') \<and>
     same_rows_except 0 (next_states (init_buffer 2 [1])) (next_states b') \<and>
     0 \<le> cursor (init_buffer 2 [1]) \<and> int 1 \<noteq> cursor (init_buffer 2 [1]) \<and>
     row_at b' 1 = row_at (init_buffer 2 [1]) 1"
proof -
  define b' where "b' = \<lparr> states = Array [Array [Scalar 5], Array [Scalar 0]],
                actions = Array [Array [Scalar (5::int)], Array [Scalar 0]],
                rewards = Array [Array [Scalar (1::real)], Array [Scalar 0]],
                dones = Array [Array [Scalar False], Array [Scalar False]],
                next_states = Array [Array [Scalar 6], Array [Scalar 0]],
                cursor = 1, full = False \<rparr>"
  have h: "add_transition (init_buffer 2 [1]) (demo_transition 5) = Inr b'"
    by (simp add: b'_def run_simps)
  have c: "cursor (init_buffer 2 [1]) = 0" by (simp add: init_buffer_def)
  from add_transition_frame [OF h] c have "row_at b' 1 = row_at (init_buffer 2 [1]) 1"
    by simp
  with add_transition_frame [OF h] h c b'_def show ?thesis by simp
qed

lemma int32_id: "- (2 ^ 31) \<le> x \<Longrightarrow> x < 2 ^ 31 \<Longrightarrow> int32 x = x"
  by (simp add: int32_def)


lemma init_buffer_inv: "0 < n \<Longrightarrow> buffer_inv n (init_buffer n s)"
  by (simp add: buffer_inv_def init_buffer_def shape0_def)






lemma has_shape_shape: "has_shape a s \<Longrightarrow> 0 \<notin> set s \<Longrightarrow> shape a = s"
proof (induction a arbitrary: s)
  case (Scalar x)
  then show ?case by simp
next
  case (Array rs)
  from Array.prems obtain n s' where s: "s = n # s'" "length rs = n" "\<forall>r \<in> set rs. has_shape r s'"
    by (auto split: list.splits)
  with Array.prems(2) obtain r rs' where rs: "rs = r # rs'"
    by (cases rs) auto
  with s Array.prems(2) Array.IH [of r s'] show ?case by auto
qed

lemma those_map_Some: "(\<forall>x \<in> set xs. f x = Some x) \<Longrightarrow> those (map f xs) = Some xs"
  by (induction xs) auto

lemma broadcast_to_same: "has_shape a s \<Longrightarrow> 0 \<notin> set s \<Longrightarrow> broadcast_to a s = Some a"
proof (induction a arbitrary: s)
  case (Scalar x)
  then show ?case by simp
next
  case (Array rs)
  from Array.prems obtain n s' where s: "s = n # s'" "length rs = n" "\<forall>r \<in> set rs. has_shape r s'"
    by (auto split: list.splits)
  from has_shape_shape [OF Array.prems] have sh: "shape (Array rs) = n # s'"
    by (simp add: s)
  from s Array.prems(2) Array.IH have "\<forall>r \<in> set rs. broadcast_to r s' = Some r"
    by auto
  then have "those (map (\<lambda>r. broadcast_to r s') rs) = Some rs"
    by (rule those_map_Some)
  with s sh show ?case by simp
qed

lemma has_shape_zeros: "has_shape (zeros z s) s"
  by (induction s) auto

lemma at_set_shaped:
  assumes "has_shape a (n # s)" "0 \<notin> set s" "has_shape v s" "0 \<le> i" "i < int n"
  shows "at_set a i v = Inr (Array ((rows a)[nat i := v]))"
proof -
  from assms(1) obtain rs where a: "a = Array rs" "length rs = n" "\<forall>r \<in> set rs. has_shape r s"
    by (cases a) auto
  with assms(4,5) obtain r rs' where rs: "rs = r # rs'"
    by (cases rs) auto
  with a have "has_shape r s" by simp
  with assms(2) have "shape r = s" by (simp add: has_shape_shape)
  with broadcast_to_same [OF assms(3,2)] a rs assms(4,5) show ?thesis
    by (simp add: at_set_def normalize_index_def)
qed

lemma has_shape_update:
  "has_shape a (n # s) \<Longrightarrow> has_shape v s \<Longrightarrow> has_shape (Array ((rows a)[i := v])) (n # s)"
  by (cases a) (auto dest: set_update_subset_insert [THEN subsetD])

lemma add_transition_shaped:
  assumes n: "0 < n" "n < 2 ^ 31" and s: "0 \<notin> set s"
    and b: "buffer_shaped n s b" and c: "0 \<le> cursor b" "cursor b < int n"
    and t: "transition_ok s (state, action, reward, dn, next_state)"
  shows "add_transition b (state, action, reward, dn, next_state) =
           Inr \<lparr> states = Array ((rows (states b))[nat (cursor b) := state]),
                 actions = Array ((rows (actions b))[nat (cursor b) := action]),
                 rewards = Array ((rows (rewards b))[nat (cursor b) := reward]),
                 dones = Array ((rows (dones b))[nat (cursor b) := dn]),
                 next_states = Array ((rows (next_states b))[nat (cursor b) := next_state]),
                 cursor = (cursor b + 1) mod int n,
                 full = (if (cursor b + 1) mod int n = 0 then True else full b) \<rparr>"
proof -
  have one: "0 \<notin> set [1::nat]" by simp
  from b have r0: "shape0 (rewards b) = Inr n"
    by (cases "rewards b") (auto simp: buffer_shaped_def shape0_def)
  from n c have "int32 (cursor b + 1) = cursor b + 1"
    by (intro int32_id) simp_all
  moreover from b t have "at_set (states b) (cursor b) state =
      Inr (Array ((rows (states b))[nat (cursor b) := state]))"
    by (intro at_set_shaped [OF _ s _ c]) (simp_all add: buffer_shaped_def transition_ok_def)
  moreover from b t have "at_set (actions b) (cursor b) action =
      Inr (Array ((rows (actions b))[nat (cursor b) := action]))"
    by (intro at_set_shaped [OF _ one _ c]) (simp_all add: buffer_shaped_def transition_ok_def)
  moreover from b t have "at_set (rewards b) (cursor b) reward =
      Inr (Array ((rows (rewards b))[nat (cursor b) := reward]))"
    by (intro at_set_shaped [OF _ one _ c]) (simp_all add: buffer_shaped_def transition_ok_def)
  moreover from b t have "at_set (dones b) (cursor b) dn =
      Inr (Array ((rows (dones b))[nat (cursor b) := dn]))"
    by (intro at_set_shaped [OF _ one _ c]) (simp_all add: buffer_shaped_def transition_ok_def)
  moreover from b t have "at_set (next_states b) (cursor b) next_state =
      Inr (Array ((rows (next_states b))[nat (cursor b) := next_state]))"
    by (intro at_set_shaped [OF _ s _ c]) (simp_all add: buffer_shaped_def transition_ok_def)
  ultimately show ?thesis
    using r0 by (simp add: add_transition_def Let_def)
qed

lemma has_shape_rows_length: "has_shape a (n # s) \<Longrightarrow> length (rows a) = n"
  by (cases a) auto

lemma add_transition_shaped_props:
  assumes n: "0 < n" "n < 2 ^ 31" and s: "0 \<notin> set s"
    and b: "buffer_shaped n s b" and c: "0 \<le> cursor b" "cursor b < int n"
    and t: "transition_ok s t"
  shows "\<exists>b'. add_transition b t = Inr b' \<and> buffer_shaped n s b' \<and>
           cursor b' = (cursor b + 1) mod int n \<and>
           (full b' \<longleftrightarrow> full b \<or> cursor b' = 0) \<and>
           row_at b' (nat (cursor b)) = t \<and>
           (\<forall>j. j \<noteq> nat (cursor b) \<longrightarrow> row_at b' j = row_at b j)"
proof -
  obtain state action reward dn next_state
    where t': "t = (state, action, reward, dn, next_state)"
    by (cases t) auto
  note eq = add_transition_shaped [OF n s b c t [unfolded t']]
  from c b have len: "nat (cursor b) < length (rows (states b))"
    "nat (cursor b) < length (rows (actions b))"
    "nat (cursor b) < length (rows (rewards b))"
    "nat (cursor b) < length (rows (dones b))"
    "nat (cursor b) < length (rows (next_states b))"
    by (auto simp: buffer_shaped_def dest!: has_shape_rows_length)
  from b t have "buffer_shaped n s
     \<lparr> states = Array ((rows (states b))[nat (cursor b) := state]),
                 actions = Array ((rows (actions b))[nat (cursor b) := action]),
                 rewards = Array ((rows (rewards b))[nat (cursor b) := reward]),
                 dones = Array ((rows (dones b))[nat (cursor b) := dn]),
                 next_states = Array ((rows (next_states b))[nat (cursor b) := next_state]),
                 cursor = (cursor b + 1) mod int n,
                 full = (if (cursor b + 1) mod int n = 0 then True else full b) \<rparr>"
    unfolding buffer_shaped_def t' transition_ok_def
    by (simp add: has_shape_update del: has_shape.simps)
  with eq len show ?thesis
    unfolding t' by (simp add: row_at_def)
qed

lemma add_all_append:
  "add_all b (ts @ us) = bindE (add_all b ts) (\<lambda>b'. add_all b' us)"
  by (induction ts arbitrary: b) (auto simp: bindE_def split: sum.splits)

lemma init_buffer_shaped: "buffer_shaped n s (init_buffer n s)"
  using has_shape_zeros [of _ "[Suc 0]"]
  by (simp add: buffer_shaped_def init_buffer_def has_shape_zeros)

lemma add_all_fill:
  assumes n: "0 < n" "n < 2 ^ 31" and s: "0 \<notin> set s"
  shows "length ts \<le> n \<Longrightarrow> \<forall>t \<in> set ts. transition_ok s t \<Longrightarrow>
     \<exists>b. add_all (init_buffer n s) ts = Inr b \<and> buffer_shaped n s b \<and>
         cursor b = int (length ts mod n) \<and> (full b \<longleftrightarrow> length ts = n) \<and>
         (\<forall>i < length ts. row_at b i = ts ! i)"
proof (induction ts rule: rev_induct)
  case Nil
  from n show ?case
    by (simp add: init_buffer_shaped) (simp add: init_buffer_def)
next
  case (snoc t ts)
  from snoc.prems have len: "length ts < n" and ok: "\<forall>t \<in> set ts. transition_ok s t"
    and t: "transition_ok s t"
    by simp_all
  from snoc.IH len ok obtain b where b: "add_all (init_buffer n s) ts = Inr b"
    "buffer_shaped n s b" "cursor b = int (length ts)" "\<not> full b"
    "\<forall>i < length ts. row_at b i = ts ! i"
    by auto
  from b(3) len have c: "0 \<le> cursor b" "cursor b < int n" by simp_all
  from add_transition_shaped_props [OF n s b(2) c t] obtain b' where
    b': "add_transition b t = Inr b'" "buffer_shaped n s b'"
      "cursor b' = (cursor b + 1) mod int n" "full b' \<longleftrightarrow> full b \<or> cursor b' = 0"
      "row_at b' (nat (cursor b)) = t" "\<forall>j. j \<noteq> nat (cursor b) \<longrightarrow> row_at b' j = row_at b j"
    by blast
  have "add_all (init_buffer n s) (ts @ [t]) = Inr b'"
    using b(1) b'(1) by (simp add: add_all_append)
  moreover have cur: "cursor b' = int (Suc (length ts) mod n)"
    using b'(3) b(3) by (simp add: zmod_int add.commute)
  moreover have "full b' \<longleftrightarrow> length (ts @ [t]) = n"
  proof -
    have "Suc (length ts) mod n = 0 \<longleftrightarrow> Suc (length ts) = n"
    proof (cases "Suc (length ts) = n")
      case True
      then show ?thesis by simp
    next
      case False
      with len have "Suc (length ts) < n" by simp
      then have "Suc (length ts) mod n = Suc (length ts)" by simp
      with False show ?thesis by simp
    qed
    with cur have "cursor b' = 0 \<longleftrightarrow> Suc (length ts) = n" by simp
    with b'(4) b(4) show ?thesis by simp
  qed
  moreover have "\<forall>i < length (ts @ [t]). row_at b' i = (ts @ [t]) ! i"
  proof (intro allI impI)
    fix i assume "i < length (ts @ [t])"
    then consider "i < length ts" | "i = length ts" by fastforce
    then show "row_at b' i = (ts @ [t]) ! i"
    proof cases
      case 1
      with b(3) have "i \<noteq> nat (cursor b)" by simp
      with b'(6) b(5) 1 show ?thesis by (simp add: nth_append)
    next
      case 2
      with b'(5) b(3) show ?thesis by simp
    qed
  qed
  ultimately show ?case using b'(2) by auto
qed

lemma clamp_index_less: "0 < n \<Longrightarrow> clamp_index i n < n"
  by (simp add: clamp_index_def)

lemma clamp_index_id: "0 \<le> i \<Longrightarrow> i < int n \<Longrightarrow> clamp_index i n = nat i"
  by (simp add: clamp_index_def normalize_index_def)

lemma getitem_rows:
  "shape0 a = Inr n \<Longrightarrow> 0 < n \<Longrightarrow> getitem a i = Inr (rows a ! clamp_index i n)"
  by (cases a) (auto simp: shape0_def getitem_def)

lemma sample_transition_row:
  assumes "buffer_inv n b" "sample_index R rng b = Inr i"
  shows "sample_transition R rng b = Inr (row_at b (clamp_index i n))"
proof -
  from assms(1) have n: "0 < n" by (simp add: buffer_inv_def)
  from assms(1) have "shape0 (states b) = Inr n" "shape0 (actions b) = Inr n"
    "shape0 (rewards b) = Inr n" "shape0 (dones b) = Inr n" "shape0 (next_states b) = Inr n"
    by (simp_all add: buffer_inv_def)
  then show ?thesis
    using assms(2) n by (simp add: sample_transition_def getitem_rows row_at_def)
qed

lemma sample_index_Inr:
  "shape0 (rewards b) = Inr n \<Longrightarrow>
     sample_index R rng b =
       Inr (random_randint R (snd (random_split R rng)) 0 (if full b then int n else cursor b))"
  by (simp add: sample_index_def Let_def split: prod.splits)

lemma buffer_shaped_inv:
  "buffer_shaped n s b \<Longrightarrow> 0 \<le> cursor b \<Longrightarrow> cursor b < int n \<Longrightarrow> buffer_inv n b"
  by (cases "states b"; cases "actions b"; cases "rewards b"; cases "dones b";
      cases "next_states b")
     (simp_all add: buffer_shaped_def buffer_inv_def shape0_def)

text \<open>
  C4. From \<open>init_buffer capacity state_shape\<close>, \<open>capacity\<close> calls of
  \<open>add_transition\<close> with transitions of the documented shapes succeed and leave
  \<open>full\<close> set and the cursor at 0; one more call writes its transition to row 0, and
  from then on \<open>sample_transition\<close> returns, for every generator and key, one of the last
  \<open>capacity\<close> transitions added, never the overwritten first one. The capacity is
  positive and fits \<open>int32\<close>; the state shape has no dimension of size 0.
\<close>

theorem wrap_around:
  assumes "0 < capacity" "capacity < 2 ^ 31" "0 \<notin> set state_shape"
    and "length ts = capacity" "\<forall>t \<in> set ts. transition_ok state_shape t"
    and "transition_ok state_shape t'"
  shows "\<exists>b b'. add_all (init_buffer capacity state_shape) ts = Inr b \<and>
           full b \<and> cursor b = 0 \<and>
           add_transition b t' = Inr b' \<and> row_at b' 0 = t' \<and>
           (\<forall>rng. \<exists>tr. sample_transition R rng b' = Inr tr \<and> tr \<in> set (t' # tl ts))"
proof -
  note n = assms(1,2) and s = assms(3)
  from assms(4) have le: "length ts \<le> capacity" by simp
  from add_all_fill [OF n s le assms(5)] obtain b where
    b0: "add_all (init_buffer capacity state_shape) ts = Inr b"
      "buffer_shaped capacity state_shape b" "cursor b = int (length ts mod capacity)"
      "full b \<longleftrightarrow> length ts = capacity"
      "\<forall>i < length ts. row_at b i = ts ! i"
    by blast
  from b0(3,4) assms(4) have b: "cursor b = 0" "full b" by simp_all
  from b(1) n have c: "0 \<le> cursor b" "cursor b < int capacity" by simp_all
  from add_transition_shaped_props [OF n s b0(2) c assms(6)] obtain b' where
    b1: "add_transition b t' = Inr b'" "buffer_shaped capacity state_shape b'"
      "cursor b' = (cursor b + 1) mod int capacity" "row_at b' (nat (cursor b)) = t'"
      "\<forall>j. j \<noteq> nat (cursor b) \<longrightarrow> row_at b' j = row_at b j"
    by blast
  from b1(4,5) b(1) have b': "row_at b' 0 = t'" "\<forall>j. j \<noteq> 0 \<longrightarrow> row_at b' j = row_at b j"
    by simp_all
  from b1(3) n have "0 \<le> cursor b'" "cursor b' < int capacity" by simp_all
  with b1(2) have inv: "buffer_inv capacity b'" by (rule buffer_shaped_inv)
  have "\<exists>tr. sample_transition R rng b' = Inr tr \<and> tr \<in> set (t' # tl ts)" for rng
  proof -
    from inv have "shape0 (rewards b') = Inr capacity" by (simp add: buffer_inv_def)
    from sample_index_Inr [OF this, of R rng] obtain i where i: "sample_index R rng b' = Inr i"
      by (rule that)
    define j where "j = clamp_index i capacity"
    from n have j: "j < capacity" by (simp add: j_def clamp_index_less)
    from sample_transition_row [OF inv i] have st: "sample_transition R rng b' = Inr (row_at b' j)"
      by (simp add: j_def)
    have "row_at b' j \<in> set (t' # tl ts)"
    proof (cases "j = 0")
      case True
      with b'(1) show ?thesis by simp
    next
      case False
      from False b'(2) have "row_at b' j = row_at b j" by simp
      also from b0(5) j assms(4) have "\<dots> = ts ! j" by simp
      also from False j assms(4) have "\<dots> = tl ts ! (j - 1)"
        by (cases ts) (auto simp: nth_Cons')
      finally have "row_at b' j = tl ts ! (j - 1)" .
      moreover from False j assms(4) have "j - 1 < length (tl ts)" by simp
      ultimately have "row_at b' j \<in> set (tl ts)" by (simp del: length_tl)
      then show ?thesis by simp
    qed
    with st show ?thesis by simp
  qed
  then have "\<forall>rng. \<exists>tr. sample_transition R rng b' = Inr tr \<and> tr \<in> set (t' # tl ts)" ..
  with b0(1) b b1(1) b'(1) show ?thesis by (intro exI conjI)
qed

theorem wrap_around_witness:
  "(0::nat) < 4 \<and> (4::nat) < 2 ^ 31 \<and> 0 \<notin> set [1::nat] \<and>
   length [demo_transition 0, demo_transition 1, demo_transition 2, demo_transition 3] = 4 \<and>
   transition_ok [1] (demo_transition 0) \<and> transition_ok [1] (demo_transition 1) \<and>
   transition_ok [1] (demo_transition 2) \<and> transition_ok [1] (demo_transition 3) \<and>
   transition_ok [1] (demo_transition 4) \<and>
   (\<exists>b b'. add_all (init_buffer 4 [1])
              [demo_transition 0, demo_transition 1, demo_transition 2, demo_transition 3] =
            Inr b \<and>
      full b \<and> cursor b = 0 \<and>
      add_transition b (demo_transition 4) = Inr b' \<and>
      fst (row_at b' 0) = Array [Scalar 4] \<and>
      (\<forall>rng. \<exists>tr. sample_transition demo_prng rng b' = Inr tr \<and> fst tr \<noteq> Array [Scalar 0]))"
proof -
  let ?ts = "[demo_transition 0, demo_transition 1, demo_transition 2, demo_transition 3]"
  have n: "(0::nat) < 4" "(4::nat) < 2 ^ 31" "0 \<notin> set [1::nat]" "length ?ts = 4"
    by simp_all
  have ok: "transition_ok [1] (demo_transition k)" for k
    by (simp add: transition_ok_def demo_transition_def)
  then have oks: "\<forall>t \<in> set ?ts. transition_ok [1] t" by simp
  from wrap_around [OF n oks ok, of 4 demo_prng] obtain b b' where
    b: "add_all (init_buffer 4 [1]) ?ts = Inr b" "full b" "cursor b = 0"
      "add_transition b (demo_transition 4) = Inr b'" "row_at b' 0 = demo_transition 4"
      "\<forall>rng. \<exists>tr. sample_transition demo_prng rng b' = Inr tr \<and>
          tr \<in> set (demo_transition 4 # tl ?ts)"
    by blast
  from b(5) have "fst (row_at b' 0) = Array [Scalar 4]"
    by (simp add: demo_transition_def)
  moreover have "fst tr \<noteq> Array [Scalar 0]" if "tr \<in> set (demo_transition 4 # tl ?ts)" for tr
    using that by (auto simp: demo_transition_def)
  with b(6) have "\<forall>rng. \<exists>tr. sample_transition demo_prng rng b' = Inr tr \<and> fst tr \<noteq> Array [Scalar 0]"
    by blast
  ultimately show ?thesis using n ok b(1-4) by blast
qed

lemma demo_prng_ok: "prng_ok demo_prng"
proof -
  have "lo \<le> lo + int k mod (hi - lo) \<and> lo + int k mod (hi - lo) < hi"
    if "lo < hi" for k :: nat and lo hi :: int
    using that pos_mod_sign [of "hi - lo" "int k"] pos_mod_bound [of "hi - lo" "int k"]
    by linarith
  moreover have "real (k mod 10) / 10 < 1" for k :: nat
  proof -
    have "k mod 10 < 10" by simp
    then have "real (k mod 10) < 10" by linarith
    then show ?thesis by simp
  qed
  ultimately show ?thesis
    by (simp add: prng_ok_def demo_prng_def)
qed

lemma uniform_over_compose:
  assumes g: "uniform_over K g K'" and f: "uniform_over K' f S"
  shows "uniform_over K (\<lambda>k. f (g k)) S"
proof -
  from g have K: "finite K" "K \<noteq> {}" "g ` K \<subseteq> K'"
    and cg: "\<And>k'. k' \<in> K' \<Longrightarrow> card {k \<in> K. g k = k'} * card K' = card K"
    by (simp_all add: uniform_over_def)
  from f have K': "finite K'" "K' \<noteq> {}" "finite S" "f ` K' \<subseteq> S"
    and cf: "\<And>v. v \<in> S \<Longrightarrow> card {k' \<in> K'. f k' = v} * card S = card K'"
    by (simp_all add: uniform_over_def)
  from K' have pos: "0 < card K'" by (simp add: card_gt_0_iff)
  have "card {k \<in> K. f (g k) = v} * card S = card K" if v: "v \<in> S" for v
  proof -
    define A where "A = {k' \<in> K'. f k' = v}"
    define B where "B = (\<lambda>k'. {k \<in> K. g k = k'})"
    have fA: "finite A" using K'(1) by (simp add: A_def)
    have eq: "{k \<in> K. f (g k) = v} = (\<Union>k' \<in> A. B k')"
      using K(3) by (auto simp: A_def B_def)
    have "card (\<Union>k' \<in> A. B k') = (\<Sum>k' \<in> A. card (B k'))"
    proof (rule card_UN_disjoint)
      show "finite A" by (rule fA)
      show "\<forall>i \<in> A. finite (B i)" using K(1) by (simp add: B_def)
      show "\<forall>i \<in> A. \<forall>j \<in> A. i \<noteq> j \<longrightarrow> B i \<inter> B j = {}" by (auto simp: B_def)
    qed
    then have "card {k \<in> K. f (g k) = v} * card K' = (\<Sum>k' \<in> A. card (B k') * card K')"
      by (simp add: eq sum_distrib_right)
    also have "\<dots> = (\<Sum>k' \<in> A. card K)"
      by (rule sum.cong) (simp_all add: A_def B_def cg)
    also have "\<dots> = card A * card K" by simp
    finally have "card {k \<in> K. f (g k) = v} * card K' * card S = card A * card S * card K"
      by simp
    also from cf [OF v] have "card A * card S = card K'" by (simp add: A_def)
    finally have "card K' * (card {k \<in> K. f (g k) = v} * card S) = card K' * card K"
      by (simp add: mult_ac)
    with pos show ?thesis by simp
  qed
  moreover from K(3) K'(4) have "(\<lambda>k. f (g k)) ` K \<subseteq> S" by auto
  ultimately show ?thesis using K K' by (simp add: uniform_over_def)
qed

lemma uniform_over_inj:
  assumes "uniform_over K f S" "inj h"
  shows "uniform_over K (\<lambda>k. h (f k)) (h ` S)"
proof -
  from assms(2) have "card (h ` S) = card S" by (simp add: card_image inj_on_def inj_def)
  moreover from assms(2) have "{k \<in> K. h (f k) = h v} = {k \<in> K. f k = v}" for v
    by (auto simp: inj_def)
  ultimately show ?thesis
    using assms(1) by (auto simp: uniform_over_def)
qed

lemma uniform_over_bij:
  assumes "finite K" "K \<noteq> {}" "bij_betw f K S"
  shows "uniform_over K f S"
proof -
  from assms(3) have im: "f ` K = S" and inj: "inj_on f K"
    by (simp_all add: bij_betw_def)
  with assms(1) have S: "finite S" "card S = card K"
    by (auto simp: card_image)
  have "card {k \<in> K. f k = v} = 1" if "v \<in> S" for v
  proof -
    from that im obtain k where k: "k \<in> K" "f k = v" by auto
    with inj have "{k \<in> K. f k = v} = {k}" by (auto simp: inj_on_def)
    then show ?thesis by simp
  qed
  with assms(1,2) S im show ?thesis by (simp add: uniform_over_def)
qed

text \<open>
  C1 (as amended). For a storage that satisfies the invariant and holds at least one
  transition (\<open>full\<close> is set or the cursor is positive), \<open>sample_transition\<close> makes one
  \<open>randint\<close> draw with the bounds \<open>[0, capacity)\<close> when \<open>full\<close> is set and
  \<open>[0, cursor)\<close> when it is not; the index drawn lies in these bounds, and the result is
  the 5-tuple stored at that row. The index is uniformly distributed over these bounds:
  when the key is uniform over \<open>K\<close>, the sub-key that \<open>split\<close> derives from it is uniform
  over \<open>K'\<close>, and \<open>randint\<close> with these bounds is uniform on keys of \<open>K'\<close>, every row
  index of the range is drawn at the same number of keys of \<open>K\<close>.
\<close>

theorem sample_transition_in_range:
  assumes "prng_ok R" "buffer_inv capacity b" "full b \<or> 0 < cursor b"
  shows "(\<exists>i. sample_index R rng b = Inr i \<and>
           i = random_randint R (snd (random_split R rng)) 0
                 (if full b then int capacity else cursor b) \<and>
           0 \<le> i \<and> i < (if full b then int capacity else cursor b) \<and>
           sample_transition R rng b = Inr (row_at b (nat i))) \<and>
         (uniform_over K (\<lambda>k. snd (random_split R k)) K' \<longrightarrow>
          uniform_over K' (\<lambda>k. random_randint R k 0 (if full b then int capacity else cursor b))
            {0 ..< (if full b then int capacity else cursor b)} \<longrightarrow>
          uniform_over K (\<lambda>rng. sample_index R rng b)
            (Inr ` {0 ..< (if full b then int capacity else cursor b)}))"
proof -
  define m where "m = (if full b then int capacity else cursor b)"
  define i where "i = random_randint R (snd (random_split R rng)) 0 m"
  from assms(2) have r: "shape0 (rewards b) = Inr capacity" and c: "cursor b < int capacity"
    and n: "0 < capacity"
    by (simp_all add: buffer_inv_def)
  from sample_index_Inr [OF r, of R rng] have si: "sample_index R rng b = Inr i"
    by (simp add: i_def m_def)
  from assms(3) n have "0 < m" by (auto simp: m_def)
  with assms(1) have range: "0 \<le> i" "i < m"
    by (simp_all add: prng_ok_def i_def)
  from c have "m \<le> int capacity" by (simp add: m_def)
  with range have "clamp_index i capacity = nat i"
    by (intro clamp_index_id) simp_all
  with sample_transition_row [OF assms(2) si]
  have "sample_transition R rng b = Inr (row_at b (nat i))" by simp
  with si range have 1: "\<exists>i. sample_index R rng b = Inr i \<and>
           i = random_randint R (snd (random_split R rng)) 0 m \<and>
           0 \<le> i \<and> i < m \<and> sample_transition R rng b = Inr (row_at b (nat i))"
    unfolding i_def by blast
  have 2: "uniform_over K (\<lambda>rng. sample_index R rng b) (Inr ` {0 ..< m})"
    if g: "uniform_over K (\<lambda>k. snd (random_split R k)) K'"
      and f: "uniform_over K' (\<lambda>k. random_randint R k 0 m) {0 ..< m}"
  proof -
    have "(\<lambda>rng. sample_index R rng b) =
        (\<lambda>rng. Inr (random_randint R (snd (random_split R rng)) 0 m))"
      using sample_index_Inr [OF r, of R] by (simp add: m_def)
    moreover have "uniform_over K (\<lambda>rng. (Inr (random_randint R (snd (random_split R rng)) 0 m)
        :: error + int)) (Inr ` {0 ..< m})"
      by (rule uniform_over_inj [OF uniform_over_compose [OF g f]]) simp
    ultimately show ?thesis by simp
  qed
  from 1 2 show ?thesis unfolding m_def by blast
qed

lemma demo_subkey_uniform:
  "uniform_over {0, 1, 2} (\<lambda>k. snd (random_split demo_prng k)) {2, 4, 6}"
  by (rule uniform_over_bij) (auto simp: bij_betw_def demo_prng_def)

lemma demo_randint_uniform:
  "uniform_over {2, 4, 6} (\<lambda>k. random_randint demo_prng k 0 3) {0 ..< 3}"
proof (rule uniform_over_bij)
  have "{0 ..< 3 :: int} = {0, 1, 2}" by auto
  then show "bij_betw (\<lambda>k. random_randint demo_prng k 0 3) {2, 4, 6} {0 ..< 3}"
    by (auto simp: bij_betw_def demo_prng_def)
qed simp_all

theorem sample_transition_in_range_witness:
  "prng_ok demo_prng \<and>
   uniform_over {0, 1, 2} (\<lambda>k. snd (random_split demo_prng k)) {2, 4, 6} \<and>
   uniform_over {2, 4, 6} (\<lambda>k. random_randint demo_prng k 0 3) {0 ..< 3} \<and>
   (\<exists>b. add_all (init_buffer 4 [1]) [demo_transition 5, demo_transition 6, demo_transition 7] =
          Inr b \<and>
      buffer_inv 4 b \<and> \<not> full b \<and> 0 < cursor b \<and> cursor b = 3 \<and>
      sample_index demo_prng 0 b = Inr 1 \<and> (1::int) < 3 \<and>
      sample_transition demo_prng 0 b = Inr (row_at b 1) \<and>
      row_at b 1 = demo_transition 6 \<and>
      uniform_over {0, 1, 2} (\<lambda>rng. sample_index demo_prng rng b) (Inr ` {0 ..< 3}) \<and>
      card {rng \<in> {0, 1, 2}. sample_index demo_prng rng b = Inr 0} = 1 \<and>
      card {rng \<in> {0, 1, 2}. sample_index demo_prng rng b = Inr 1} = 1 \<and>
      card {rng \<in> {0, 1, 2}. sample_index demo_prng rng b = Inr 2} = 1)"
proof -
  define b where "b = \<lparr> states = Array [Array [Scalar 5], Array [Scalar 6], Array [Scalar 7],
                           Array [Scalar 0]],
                  actions = Array [Array [Scalar (5::int)], Array [Scalar 6], Array [Scalar 7],
                           Array [Scalar 0]],
                  rewards = Array [Array [Scalar (1::real)], Array [Scalar 1], Array [Scalar 1],
                           Array [Scalar 0]],
                  dones = Array [Array [Scalar False], Array [Scalar False], Array [Scalar False],
                           Array [Scalar False]],
                  next_states = Array [Array [Scalar 6], Array [Scalar 7], Array [Scalar 8],
                           Array [Scalar 0]],
                  cursor = 3, full = False \<rparr>"
  have h: "add_all (init_buffer 4 [1]) [demo_transition 5, demo_transition 6, demo_transition 7] =
      Inr b"
    by (simp add: b_def run_simps)
  have inv: "buffer_inv 4 b" by (simp add: b_def buffer_inv_def shape0_def)
  have c: "full b \<or> 0 < cursor b" "\<not> full b" "cursor b = 3" by (simp_all add: b_def)
  have r: "row_at b 1 = demo_transition 6"
    by (simp add: b_def row_at_def demo_transition_def)
  have d: "random_randint demo_prng (snd (random_split demo_prng 0)) 0 3 = 1"
    by (simp add: demo_prng_def)
  note t = sample_transition_in_range [OF demo_prng_ok inv c(1), of _ "{0, 1, 2}" "{2, 4, 6}"]
  from t [of 0] c(2,3) d
  have s: "sample_index demo_prng 0 b = Inr 1" "sample_transition demo_prng 0 b = Inr (row_at b 1)"
    by auto
  from t [of 0] c(2,3) demo_subkey_uniform demo_randint_uniform
  have u: "uniform_over {0, 1, 2} (\<lambda>rng. sample_index demo_prng rng b) (Inr ` {0 ..< 3})"
    by simp
  have three: "card {0, 1, 2 :: nat} = 3" "card (Inr ` {0 ..< 3 :: int} :: (error + int) set) = 3"
    by (simp_all add: card_image)
  have "card {rng \<in> {0, 1, 2}. sample_index demo_prng rng b = Inr j} = 1"
    if "j \<in> {0 ..< 3}" for j
  proof -
    from that have "(Inr j :: error + int) \<in> Inr ` {0 ..< 3}" by simp
    with u have "card {rng \<in> {0, 1, 2}. sample_index demo_prng rng b = Inr j} *
        card (Inr ` {0 ..< 3 :: int} :: (error + int) set) = card {0, 1, 2 :: nat}"
      unfolding uniform_over_def by blast
    then show ?thesis by (simp add: three)
  qed
  from this [of 0] this [of 1] this [of 2]
  have k: "card {rng \<in> {0, 1, 2}. sample_index demo_prng rng b = Inr 0} = 1"
    "card {rng \<in> {0, 1, 2}. sample_index demo_prng rng b = Inr 1} = 1"
    "card {rng \<in> {0, 1, 2}. sample_index demo_prng rng b = Inr 2} = 1"
    by simp_all
  from demo_prng_ok demo_subkey_uniform demo_randint_uniform h inv c r s u k
  show ?thesis by auto
qed

text \<open>
  C1 as stated, for every storage snapshot, fails on the freshly initialised buffer:
  \<open>full\<close> is not set, the cursor is 0, the range is empty, \<open>randint\<close> returns its
  \<open>minval\<close>, and row 0 (never written) is returned: the row index 0 is not below the
  cursor.
\<close>

theorem sample_empty_buffer_counterexample:
  "\<not> full (init_buffer 4 [1]) \<and>
   sample_index demo_prng 0 (init_buffer 4 [1]) = Inr 0 \<and>
   \<not> (0 < cursor (init_buffer 4 [1])) \<and>
   sample_transition demo_prng 0 (init_buffer 4 [1]) =
     Inr (Array [Scalar 0], Array [Scalar 0], Array [Scalar 0], Array [Scalar False],
          Array [Scalar 0])"
  by (simp add: sample_transition_def sample_index_def demo_prng_def run_simps)

text \<open>
  The same row comes back whatever the generator returns on the empty range: every row of
  the fresh buffer is the zero row and an index out of bounds is clamped.
\<close>

lemma nth_replicate_clamp: "0 < n \<Longrightarrow> replicate n x ! clamp_index i n = x"
  by (rule nth_replicate) (simp add: clamp_index_less)

lemma sample_empty_buffer_any_prng:
  "sample_transition R rng (init_buffer 4 [1]) =
     Inr (Array [Scalar 0], Array [Scalar 0], Array [Scalar 0], Array [Scalar False],
          Array [Scalar 0])"
proof -
  have inv: "shape0 (rewards (init_buffer 4 [1])) = Inr 4"
    by (simp add: init_buffer_def shape0_def)
  from sample_index_Inr [OF inv, of R rng] show ?thesis
    by (simp add: sample_transition_def getitem_def init_buffer_def nth_replicate_clamp)
qed

lemma those_eq_None_iff: "those (map f xs) = None \<longleftrightarrow> (\<exists>x \<in> set xs. f x = None)"
  by (induction xs) (auto split: option.splits)

lemma broadcastable_Nil: "broadcastable vs [] \<longleftrightarrow> vs = []"
  by (auto simp: broadcastable_def)

lemma broadcastable_shorter:
  "length vs \<le> length s \<Longrightarrow> broadcastable vs (n # s) \<longleftrightarrow> broadcastable vs s"
  by (simp add: broadcastable_def Suc_diff_le)

lemma broadcastable_same_rank:
  "length vs = length s \<Longrightarrow>
     broadcastable (m # vs) (n # s) \<longleftrightarrow> (m = n \<or> m = 1) \<and> broadcastable vs s"
  by (simp add: broadcastable_def)

lemma broadcastable_longer: "length s < length vs \<Longrightarrow> \<not> broadcastable vs s"
  by (simp add: broadcastable_def)

lemma broadcast_to_iff:
  "has_shape v vs \<Longrightarrow> 0 \<notin> set vs \<Longrightarrow> broadcast_to v s \<noteq> None \<longleftrightarrow> broadcastable vs s"
proof (induction s arbitrary: v vs)
  case Nil
  then show ?case
    by (cases v) (auto simp: broadcastable_Nil split: list.splits)
next
  case (Cons n s)
  from Cons.prems have sh: "shape v = vs" by (rule has_shape_shape)
  show ?case
  proof (cases "length vs < Suc (length s)")
    case True
    with sh Cons.IH [OF Cons.prems] show ?thesis
      by (simp add: broadcastable_shorter)
  next
    case False
    with Cons.prems obtain rs m vs' where v: "v = Array rs" "vs = m # vs'" "length rs = m"
      "\<forall>r \<in> set rs. has_shape r vs'" "0 < m" "0 \<notin> set vs'"
      by (cases v) (auto split: list.splits)
    then obtain r rs' where rs: "rs = r # rs'" by (cases rs) auto
    have row: "broadcast_to r' s \<noteq> None \<longleftrightarrow> broadcastable vs' s" if "r' \<in> set rs" for r'
      using that v(4,6) Cons.IH [of r' vs'] by blast
    have all: "those (map (\<lambda>r. broadcast_to r s) rs) \<noteq> None \<longleftrightarrow> broadcastable vs' s"
    proof -
      have "those (map (\<lambda>r. broadcast_to r s) rs) \<noteq> None \<longleftrightarrow>
          (\<forall>r' \<in> set rs. broadcast_to r' s \<noteq> None)"
        by (simp add: those_eq_None_iff)
      also have "\<dots> \<longleftrightarrow> (\<forall>r' \<in> set rs. broadcastable vs' s)"
        using row by blast
      also have "\<dots> \<longleftrightarrow> broadcastable vs' s"
        unfolding rs by auto
      finally show ?thesis .
    qed
    have hd: "broadcast_to (hd rs) s \<noteq> None \<longleftrightarrow> broadcastable vs' s"
      using row [of r] rs by simp
    show ?thesis
    proof (cases "length vs' = length s")
      case True
      with sh False v(1,2,3) all hd show ?thesis
        by (auto simp: broadcastable_same_rank)
    next
      case False
      with \<open>\<not> length vs < Suc (length s)\<close> v(2) have long: "length s < length vs'"
        "length (n # s) < length vs"
        by simp_all
      then have "\<not> broadcastable vs' s" "\<not> broadcastable vs (n # s)"
        by (simp_all only: broadcastable_longer not_False_eq_True)
      with sh \<open>\<not> length vs < Suc (length s)\<close> v(1,2,3) all hd show ?thesis
        by auto
    qed
  qed
qed

lemma buffer_shaped_states:
  assumes "buffer_shaped n s b" "0 < n" "0 \<notin> set s"
  shows "\<exists>r rs. states b = Array (r # rs) \<and> shape r = s \<and> length (r # rs) = n"
proof -
  from assms(1) obtain rows where a: "states b = Array rows" "length rows = n"
    "\<forall>r \<in> set rows. has_shape r s"
    by (cases "states b") (auto simp: buffer_shaped_def)
  with assms(2) obtain r rs where "rows = r # rs" by (cases rows) auto
  with a assms(3) show ?thesis by (auto simp: has_shape_shape)
qed

lemma at_set_broadcast:
  assumes "has_shape a (n # s)" "0 \<notin> set s" "0 \<le> i" "i < int n"
    and "broadcast_to v s = Some bv"
  shows "at_set a i v = Inr (Array ((rows a)[nat i := bv]))"
proof -
  from assms(1) obtain rs where a: "a = Array rs" "length rs = n" "\<forall>r \<in> set rs. has_shape r s"
    by (cases a) auto
  with assms(3,4) obtain r rs' where rs: "rs = r # rs'"
    by (cases rs) auto
  with a have "has_shape r s" by simp
  with assms(2) have "shape r = s" by (simp add: has_shape_shape)
  with assms(5) a rs assms(3,4) show ?thesis
    by (simp add: at_set_def normalize_index_def)
qed

text \<open>
  C8 (as amended). \<open>add_transition\<close> has no shape check of its own; the only check is the
  broadcast of the array write. On a storage of state shape \<open>s\<close>, a state whose shape
  cannot be broadcast to \<open>s\<close> makes the call fail with ValueError. A state whose shape
  can be broadcast to \<open>s\<close>, passed with the other fields in their documented shapes, is
  accepted whatever its shape, and the row written holds the state broadcast to \<open>s\<close>: a
  state of shape \<open>(1,)\<close> or a scalar is written to the whole row and not rejected.
  Whenever the call returns, the state's shape can be broadcast to \<open>s\<close> and the row
  written is that broadcast.
\<close>

theorem add_transition_shape_check:
  assumes "buffer_shaped n s b" "buffer_inv n b" "0 \<notin> set s"
    and "has_shape state vs" "0 \<notin> set vs"
  shows "(\<not> broadcastable vs s \<longrightarrow>
            add_transition b (state, action, reward, dn, next_state) = Inl ValueError) \<and>
         (\<forall>b'. add_transition b (state, action, reward, dn, next_state) = Inr b' \<longrightarrow>
            broadcastable vs s \<and>
            broadcast_to state s = Some (rows (states b') ! nat (cursor b))) \<and>
         (broadcastable vs s \<longrightarrow> has_shape action [1] \<longrightarrow> has_shape reward [1] \<longrightarrow>
          has_shape dn [1] \<longrightarrow> has_shape next_state s \<longrightarrow>
            (\<exists>b' bv. add_transition b (state, action, reward, dn, next_state) = Inr b' \<and>
               broadcast_to state s = Some bv \<and> rows (states b') ! nat (cursor b) = bv))"
proof -
  from assms(2) have n: "0 < n" and c: "0 \<le> cursor b" "cursor b < int n"
    and r0: "shape0 (rewards b) = Inr n"
    by (simp_all add: buffer_inv_def)
  from buffer_shaped_states [OF assms(1) n assms(3)] obtain r rs where
    st: "states b = Array (r # rs)" "shape r = s" "length (r # rs) = n"
    by blast
  have fail: "add_transition b (state, action, reward, dn, next_state) = Inl ValueError"
    if "\<not> broadcastable vs s"
  proof -
    from that broadcast_to_iff [OF assms(4,5), of s] have "broadcast_to state s = None"
      by simp
    with st have "at_set (states b) (cursor b) state = Inl ValueError"
      by (simp add: at_set_def)
    with r0 show ?thesis by (simp add: add_transition_def)
  qed
  have ok: "broadcastable vs s \<and> broadcast_to state s = Some (rows (states b') ! nat (cursor b))"
    if "add_transition b (state, action, reward, dn, next_state) = Inr b'" for b'
  proof -
    from add_transition_Inr [OF that]
    have "at_set (states b) (cursor b) state = Inr (states b')" by blast
    from at_set_Inr [OF this] st c obtain bv where
      bv: "broadcast_to state s = Some bv" "states b' = Array ((r # rs)[nat (cursor b) := bv])"
      by (auto simp: normalize_index_def)
    from bv(1) broadcast_to_iff [OF assms(4,5), of s] have "broadcastable vs s" by simp
    moreover from c st(3) have "nat (cursor b) < length (r # rs)" by linarith
    then have "(r # rs)[nat (cursor b) := bv] ! nat (cursor b) = bv"
      by (rule nth_list_update_eq)
    ultimately show ?thesis using bv by simp
  qed
  have accept: "\<exists>b' bv. add_transition b (state, action, reward, dn, next_state) = Inr b' \<and>
      broadcast_to state s = Some bv \<and> rows (states b') ! nat (cursor b) = bv"
    if bc: "broadcastable vs s" and sh: "has_shape action [1]" "has_shape reward [1]"
      "has_shape dn [1]" "has_shape next_state s"
  proof -
    have one: "0 \<notin> set [1::nat]" by simp
    from bc broadcast_to_iff [OF assms(4,5), of s] obtain bv where
      bv: "broadcast_to state s = Some bv"
      by auto
    from assms(1) have shb: "has_shape (states b) (n # s)" "has_shape (actions b) [n, 1]"
      "has_shape (rewards b) [n, 1]" "has_shape (dones b) [n, 1]"
      "has_shape (next_states b) (n # s)"
      by (simp_all add: buffer_shaped_def)
    have w1: "at_set (states b) (cursor b) state =
        Inr (Array ((rows (states b))[nat (cursor b) := bv]))"
      by (rule at_set_broadcast [OF shb(1) assms(3) c bv])
    have w2: "at_set (actions b) (cursor b) action =
        Inr (Array ((rows (actions b))[nat (cursor b) := action]))"
      by (rule at_set_shaped [OF shb(2) one sh(1) c])
    have w3: "at_set (rewards b) (cursor b) reward =
        Inr (Array ((rows (rewards b))[nat (cursor b) := reward]))"
      by (rule at_set_shaped [OF shb(3) one sh(2) c])
    have w4: "at_set (dones b) (cursor b) dn =
        Inr (Array ((rows (dones b))[nat (cursor b) := dn]))"
      by (rule at_set_shaped [OF shb(4) one sh(3) c])
    have w5: "at_set (next_states b) (cursor b) next_state =
        Inr (Array ((rows (next_states b))[nat (cursor b) := next_state]))"
      by (rule at_set_shaped [OF shb(5) assms(3) sh(4) c])
    from r0 w1 w2 w3 w4 w5 obtain b' where
      b': "add_transition b (state, action, reward, dn, next_state) = Inr b'"
        "states b' = Array ((rows (states b))[nat (cursor b) := bv])"
      by (simp add: add_transition_def Let_def)
    from c st(1,3) have "nat (cursor b) < length (rows (states b))" by simp
    with b'(2) have "rows (states b') ! nat (cursor b) = bv" by simp
    with b'(1) bv show ?thesis by blast
  qed
  from fail ok accept show ?thesis by blast
qed

theorem add_transition_shape_check_witness:
  "buffer_shaped 2 [4] (init_buffer 2 [4]) \<and> buffer_inv 2 (init_buffer 2 [4]) \<and>
   0 \<notin> set [4::nat] \<and>
   has_shape (Array [Scalar 1, Scalar 2, Scalar (3::real)]) [3] \<and> 0 \<notin> set [3::nat] \<and>
   \<not> broadcastable [3] [4] \<and>
   add_transition (init_buffer 2 [4])
     (Array [Scalar 1, Scalar 2, Scalar 3], Array [Scalar 1], Array [Scalar 1],
      Array [Scalar True], Array [Scalar 1, Scalar 2, Scalar 3, Scalar 4]) = Inl ValueError \<and>
   has_shape (Array [Scalar (7::real)]) [1] \<and> 0 \<notin> set [1::nat] \<and>
   broadcastable [1] [4] \<and>
   has_shape (Array [Scalar (1::int)]) [1] \<and> has_shape (Array [Scalar (1::real)]) [1] \<and>
   has_shape (Array [Scalar True]) [1] \<and>
   has_shape (Array [Scalar 1, Scalar 2, Scalar 3, Scalar (4::real)]) [4] \<and>
   (\<exists>b'. add_transition (init_buffer 2 [4])
     (Array [Scalar 7], Array [Scalar 1], Array [Scalar 1],
      Array [Scalar True], Array [Scalar 1, Scalar 2, Scalar 3, Scalar 4]) = Inr b' \<and>
      broadcast_to (Array [Scalar 7]) [4] = Some (rows (states b') ! 0) \<and>
      rows (states b') ! 0 = Array [Scalar 7, Scalar 7, Scalar 7, Scalar 7])"
proof -
  let ?b = "init_buffer 2 [4]"
  have b: "buffer_shaped 2 [4] ?b" "buffer_inv 2 ?b" "0 \<notin> set [4::nat]"
    by (simp_all add: init_buffer_shaped init_buffer_inv)
  have s3: "has_shape (Array [Scalar 1, Scalar 2, Scalar (3::real)]) [3]" "0 \<notin> set [3::nat]"
    and s1: "has_shape (Array [Scalar (7::real)]) [1]" "0 \<notin> set [1::nat]"
    by simp_all
  have others: "has_shape (Array [Scalar (1::int)]) [1]" "has_shape (Array [Scalar (1::real)]) [1]"
    "has_shape (Array [Scalar True]) [1]"
    "has_shape (Array [Scalar 1, Scalar 2, Scalar 3, Scalar (4::real)]) [4]"
    by simp_all
  have n3: "\<not> broadcastable [3] [4]" and y1: "broadcastable [1] [4]"
    by (simp_all add: broadcastable_def)
  have c: "nat (cursor ?b) = 0" by (simp add: init_buffer_def)
  from add_transition_shape_check [OF b s3] n3
  have e: "add_transition ?b
     (Array [Scalar 1, Scalar 2, Scalar 3], Array [Scalar 1], Array [Scalar 1],
      Array [Scalar True], Array [Scalar 1, Scalar 2, Scalar 3, Scalar 4]) = Inl ValueError"
    by blast
  from add_transition_shape_check [OF b s1, THEN conjunct2, THEN conjunct2, rule_format,
      OF y1 others] c
  obtain b' bv where b': "add_transition ?b
     (Array [Scalar 7], Array [Scalar 1], Array [Scalar 1],
      Array [Scalar True], Array [Scalar 1, Scalar 2, Scalar 3, Scalar 4]) = Inr b'"
    "broadcast_to (Array [Scalar 7]) [4] = Some bv" "rows (states b') ! 0 = bv"
    by auto
  from b'(2) have "bv = Array [Scalar 7, Scalar 7, Scalar 7, Scalar 7]"
    by (simp add: replicate_numeral)
  with b'(2,3) have "broadcast_to (Array [Scalar 7]) [4] = Some (rows (states b') ! 0)"
    "rows (states b') ! 0 = Array [Scalar 7, Scalar 7, Scalar 7, Scalar 7]"
    by simp_all
  with b s3 s1 n3 y1 others e b'(1) show ?thesis by blast
qed

text \<open>
  C8 as stated fails: a state of shape \<open>(1,)\<close> and a scalar next state, passed to a buffer
  of state shape \<open>(4,)\<close>, are accepted and broadcast over the row.
\<close>

theorem add_transition_broadcast_counterexample:
  "shape (Array [Scalar (7::real)]) = [1] \<and>
   shape (rows (states (init_buffer 2 [4])) ! 0) = [4] \<and>
   add_transition (init_buffer 2 [4])
     (Array [Scalar 7], Array [Scalar 1], Array [Scalar 1], Array [Scalar True], Scalar 9) =
   Inr \<lparr> states = Array [Array [Scalar 7, Scalar 7, Scalar 7, Scalar 7],
                         Array [Scalar 0, Scalar 0, Scalar 0, Scalar 0]],
         actions = Array [Array [Scalar 1], Array [Scalar 0]],
         rewards = Array [Array [Scalar 1], Array [Scalar 0]],
         dones = Array [Array [Scalar True], Array [Scalar False]],
         next_states = Array [Array [Scalar 9, Scalar 9, Scalar 9, Scalar 9],
                              Array [Scalar 0, Scalar 0, Scalar 0, Scalar 0]],
         cursor = 1, full = False \<rparr>"
  by (simp add: run_simps)

section \<open>Properties of the agent\<close>

lemma fmax_cases: "fmax x y = x \<or> fmax x y = y"
  by (auto simp: fmax_def)

lemma fold_fmax_in: "fold fmax xs a \<in> set (a # xs)"
proof (induction xs arbitrary: a)
  case Nil
  then show ?case by simp
next
  case (Cons x xs)
  from Cons.IH [of "fmax x a"] fmax_cases [of x a] show ?case by auto
qed

lemma max_value_in: "xs \<noteq> [] \<Longrightarrow> max_value xs \<in> set xs"
  using fold_fmax_in [of "tl xs" "hd xs"] by (cases xs) (auto simp: max_value_def)

lemma fless_trans: "fless x y \<Longrightarrow> fless y z \<Longrightarrow> fless x z"
  by (cases x; cases y; cases z) auto

lemma fless_total: "x \<noteq> NaN \<Longrightarrow> y \<noteq> NaN \<Longrightarrow> fless x y \<or> x = y \<or> fless y x"
  by (cases x; cases y) auto

lemma fless_irrefl: "\<not> fless x x"
  by (cases x) auto

lemma fold_fmax_NaN: "NaN \<in> set (a # xs) \<Longrightarrow> fold fmax xs a = NaN"
proof (induction xs arbitrary: a)
  case Nil
  then show ?case by simp
next
  case (Cons x xs)
  from Cons.prems have "NaN \<in> set (fmax x a # xs)"
    by (auto simp: fmax_def)
  with Cons.IH show ?case by simp
qed

lemma fold_fmax_greatest:
  "NaN \<notin> set (a # xs) \<Longrightarrow> \<forall>x \<in> set (a # xs). \<not> fless (fold fmax xs a) x"
proof (induction xs arbitrary: a)
  case Nil
  then show ?case by (simp add: fless_irrefl)
next
  case (Cons x xs)
  define a' where "a' = fmax x a"
  define r where "r = fold fmax xs a'"
  from Cons.prems have nn: "a \<noteq> NaN" "x \<noteq> NaN" "NaN \<notin> set xs" by auto
  then have a': "a' = (if fless x a then a else x)" by (simp add: a'_def fmax_def)
  with nn have "NaN \<notin> set (a' # xs)" by auto
  from Cons.IH [OF this] have ih: "\<not> fless r a'" "\<forall>y \<in> set xs. \<not> fless r y"
    by (simp_all add: r_def)
  have "\<not> fless r a \<and> \<not> fless r x"
  proof (cases "fless x a")
    case True
    with a' ih(1) have "\<not> fless r a" by simp
    moreover from this True have "\<not> fless r x" using fless_trans by blast
    ultimately show ?thesis by simp
  next
    case False
    with a' ih(1) have rx: "\<not> fless r x" by simp
    moreover have "\<not> fless r a"
    proof
      assume ra: "fless r a"
      from fless_total [OF nn(1,2)] False consider "a = x" | "fless a x" by blast
      then show False
      proof cases
        case 1
        with rx ra show False by simp
      next
        case 2
        with rx ra show False using fless_trans by blast
      qed
    qed
    ultimately show ?thesis by simp
  qed
  with ih(2) show ?case by (simp add: r_def a'_def)
qed

lemma max_value_NaN: "NaN \<in> set xs \<Longrightarrow> max_value xs = NaN"
  using fold_fmax_NaN [of "hd xs" "tl xs"] by (cases xs) (auto simp: max_value_def)

lemma max_value_greatest:
  "xs \<noteq> [] \<Longrightarrow> NaN \<notin> set xs \<Longrightarrow> \<forall>x \<in> set xs. \<not> fless (max_value xs) x"
  using fold_fmax_greatest [of "hd xs" "tl xs"] by (cases xs) (auto simp: max_value_def)

lemma argmax_first_max:
  assumes "xs \<noteq> []"
  shows "\<exists>k. argmax xs = Inr (int k) \<and> k < length xs \<and> xs ! k = max_value xs \<and>
           (\<forall>j < k. xs ! j \<noteq> max_value xs)"
proof -
  define P where "P = (\<lambda>x. x \<noteq> max_value xs)"
  define k where "k = length (takeWhile P xs)"
  from assms have "max_value xs \<in> set xs" by (rule max_value_in)
  then have "\<not> (\<forall>x \<in> set xs. P x)" by (auto simp: P_def)
  then have "takeWhile P xs \<noteq> xs" by (simp add: takeWhile_eq_all_conv)
  with length_takeWhile_le [of P xs] have k: "k < length xs"
    unfolding k_def by (metis le_neq_implies_less takeWhile_eq_take take_all_iff order_refl)
  then have "\<not> P (xs ! k)" unfolding k_def by (rule nth_length_takeWhile)
  then have "xs ! k = max_value xs" by (simp add: P_def)
  moreover have "xs ! j \<noteq> max_value xs" if "j < k" for j
  proof -
    from that have "P (takeWhile P xs ! j)"
      unfolding k_def by (metis nth_mem set_takeWhileD)
    moreover from that have "takeWhile P xs ! j = xs ! j"
      unfolding k_def by (rule takeWhile_nth)
    ultimately show ?thesis by (simp add: P_def)
  qed
  moreover from assms have "argmax xs = Inr (int k)"
    by (simp add: argmax_def k_def P_def)
  ultimately show ?thesis using k by blast
qed

lemma select_action_eq:
  assumes "dqn_apply dqn p s = Inr q" "q \<noteq> []"
  shows "select_action dqn R rng p s epsilon =
           (if random_uniform R (snd (random_split R (fst (random_split R rng)))) < epsilon
            then Inr (random_choice R (snd (random_split R rng)) (length q))
            else argmax q)"
proof -
  from argmax_first_max [OF assms(2)] obtain k where "argmax q = Inr (int k)" by blast
  with assms(1) show ?thesis
    by (simp add: select_action_def Let_def split: prod.splits)
qed

lemma demo_dqn_ok: "dqn_ok demo_dqn"
  by (auto simp: dqn_ok_def demo_dqn_def)

text \<open>
  C6. When the network returns Q-values for the state: with \<open>epsilon = 0\<close>,
  \<open>select_action\<close> returns the greedy action for every key, the index of the first
  largest Q-value (no Q-value is greater; a NaN counts as the largest, as
  \<open>jnp.argmax\<close> has it); with \<open>epsilon = 1\<close>, it returns the candidate random action,
  the draw of \<open>choice\<close> over the \<open>n_actions\<close> actions, which lies in \<open>[0, n_actions)\<close>
  and is uniformly distributed over the actions: when the key is uniform over \<open>K\<close>, the
  sub-key that \<open>split\<close> derives from it is uniform over \<open>K'\<close>, and \<open>choice\<close> over
  \<open>n_actions\<close> is uniform on keys of \<open>K'\<close>, every action is returned at the same number
  of keys of \<open>K\<close>. The generator satisfies its range contract (\<open>uniform\<close> draws from
  \<open>[0, 1)\<close>).
\<close>

theorem select_action_boundary:
  assumes "prng_ok R" "dqn_apply dqn p s = Inr q" "q \<noteq> []"
  shows "select_action dqn R rng p s 0 = argmax q \<and>
         (\<exists>a. argmax q = Inr (int a) \<and> a < length q \<and> q ! a = max_value q \<and>
            (\<forall>j < a. q ! j \<noteq> max_value q) \<and>
            (NaN \<notin> set q \<longrightarrow> (\<forall>x \<in> set q. \<not> fless (q ! a) x))) \<and>
         select_action dqn R rng p s 1 =
           Inr (random_choice R (snd (random_split R rng)) (length q)) \<and>
         0 \<le> random_choice R (snd (random_split R rng)) (length q) \<and>
         random_choice R (snd (random_split R rng)) (length q) < int (length q) \<and>
         (uniform_over K (\<lambda>k. snd (random_split R k)) K' \<longrightarrow>
          uniform_over K' (\<lambda>k. random_choice R k (length q)) {0 ..< int (length q)} \<longrightarrow>
          uniform_over K (\<lambda>rng. select_action dqn R rng p s 1)
            (Inr ` {0 ..< int (length q)}))"
proof -
  from assms(1) have u: "0 \<le> random_uniform R k" "random_uniform R k < 1" for k
    by (simp_all add: prng_ok_def)
  from assms(3) have "0 < length q" by simp
  with assms(1) have c: "0 \<le> random_choice R k (length q)"
    "random_choice R k (length q) < int (length q)" for k
    by (simp_all add: prng_ok_def)
  from u have nu: "\<not> random_uniform R k < 0" for k by (simp add: not_less)
  have zero: "select_action dqn R rng p s 0 = argmax q"
    using nu by (simp add: select_action_eq [OF assms(2,3)])
  have one: "select_action dqn R rng' p s 1 =
      Inr (random_choice R (snd (random_split R rng')) (length q))" for rng'
    using u(2) by (simp add: select_action_eq [OF assms(2,3)])
  from argmax_first_max [OF assms(3)] obtain a where
    a: "argmax q = Inr (int a)" "a < length q" "q ! a = max_value q"
      "\<forall>j < a. q ! j \<noteq> max_value q"
    by blast
  from a(3) max_value_greatest [OF assms(3)]
  have g: "NaN \<notin> set q \<longrightarrow> (\<forall>x \<in> set q. \<not> fless (q ! a) x)" by simp
  have dist: "uniform_over K (\<lambda>rng. select_action dqn R rng p s 1)
      (Inr ` {0 ..< int (length q)})"
    if g: "uniform_over K (\<lambda>k. snd (random_split R k)) K'"
      and f: "uniform_over K' (\<lambda>k. random_choice R k (length q)) {0 ..< int (length q)}"
  proof -
    have "uniform_over K (\<lambda>rng. (Inr (random_choice R (snd (random_split R rng)) (length q))
        :: error + int)) (Inr ` {0 ..< int (length q)})"
      by (rule uniform_over_inj [OF uniform_over_compose [OF g f]]) simp
    then show ?thesis by (simp add: one)
  qed
  from zero one [of rng] a g c dist show ?thesis by blast
qed

lemma demo_choice_uniform:
  "uniform_over {2, 4} (\<lambda>k. random_choice demo_prng k 2) {0 ..< 2}"
proof (rule uniform_over_bij)
  have "{0 ..< 2 :: int} = {0, 1}" by auto
  then show "bij_betw (\<lambda>k. random_choice demo_prng k 2) {2, 4} {0 ..< 2}"
    by (auto simp: bij_betw_def demo_prng_def)
qed simp_all

lemma demo_subkey_uniform2:
  "uniform_over {0, 1} (\<lambda>k. snd (random_split demo_prng k)) {2, 4}"
  by (rule uniform_over_bij) (auto simp: bij_betw_def demo_prng_def)

lemma to_float32_small: "\<bar>x\<bar> \<le> 1000 \<Longrightarrow> to_float32 x = Finite x"
  by (auto simp: to_float32_def)

theorem select_action_boundary_witness:
  "prng_ok demo_prng \<and>
   dqn_apply demo_dqn (1, 2) (Array [Scalar 1, Scalar 2]) = Inr [Finite 3, Finite 6] \<and>
   [Finite 3, Finite 6] \<noteq> [] \<and>
   select_action demo_dqn demo_prng 3 (1, 2) (Array [Scalar 1, Scalar 2]) 0 = Inr 1 \<and>
   argmax [Finite 3, Finite 6] = Inr 1 \<and>
   select_action demo_dqn demo_prng 3 (1, 2) (Array [Scalar 1, Scalar 2]) 1 = Inr 0 \<and>
   random_choice demo_prng (snd (random_split demo_prng 3)) 2 = 0 \<and>
   uniform_over {0, 1} (\<lambda>k. snd (random_split demo_prng k)) {2, 4} \<and>
   uniform_over {2, 4} (\<lambda>k. random_choice demo_prng k 2) {0 ..< 2} \<and>
   uniform_over {0, 1}
     (\<lambda>rng. select_action demo_dqn demo_prng rng (1, 2) (Array [Scalar 1, Scalar 2]) 1)
     (Inr ` {0 ..< 2}) \<and>
   select_action demo_dqn demo_prng 0 (1, 2) (Array [Scalar 1, Scalar 2]) 1 = Inr 1 \<and>
   select_action demo_dqn demo_prng 1 (1, 2) (Array [Scalar 1, Scalar 2]) 1 = Inr 0"
proof -
  have q: "dqn_apply demo_dqn (1, 2) (Array [Scalar 1, Scalar 2]) = Inr [Finite 3, Finite 6]"
    "[Finite 3, Finite 6] \<noteq> []"
    by (simp_all add: demo_dqn_def to_float32_small)
  have a: "argmax [Finite 3, Finite 6] = Inr 1"
    by (simp add: argmax_def max_value_def fmax_def)
  have c: "random_choice demo_prng (snd (random_split demo_prng 3)) 2 = 0"
    "random_choice demo_prng (snd (random_split demo_prng 0)) 2 = 1"
    "random_choice demo_prng (snd (random_split demo_prng 1)) 2 = 0"
    by (simp_all add: demo_prng_def)
  note t = select_action_boundary [OF demo_prng_ok q, of _ "{0, 1}" "{2, 4}"]
  have l: "length [Finite 3, Finite 6] = 2" by simp
  from t [of 3] demo_subkey_uniform2 demo_choice_uniform
  have u: "uniform_over {0, 1}
     (\<lambda>rng. select_action demo_dqn demo_prng rng (1, 2) (Array [Scalar 1, Scalar 2]) 1)
     (Inr ` {0 ..< 2})"
    unfolding l by simp
  from t [of 3] t [of 0] t [of 1] a c
  have "select_action demo_dqn demo_prng 3 (1, 2) (Array [Scalar 1, Scalar 2]) 0 = Inr 1"
    "select_action demo_dqn demo_prng 3 (1, 2) (Array [Scalar 1, Scalar 2]) 1 = Inr 0"
    "select_action demo_dqn demo_prng 0 (1, 2) (Array [Scalar 1, Scalar 2]) 1 = Inr 1"
    "select_action demo_dqn demo_prng 1 (1, 2) (Array [Scalar 1, Scalar 2]) 1 = Inr 0"
    unfolding l by simp_all
  with demo_prng_ok q a c(1) demo_subkey_uniform2 demo_choice_uniform u show ?thesis
    by simp
qed

text \<open>
  C10. For every key, parameters, state and epsilon for which the network returns its
  Q-values, \<open>select_action\<close> returns an action index in \<open>[0, n_actions)\<close>.
\<close>

theorem select_action_valid_index:
  assumes "prng_ok R" "dqn_ok dqn" "dqn_apply dqn p s = Inr q"
  shows "\<exists>a. select_action dqn R rng p s epsilon = Inr a \<and> 0 \<le> a \<and> a < int (n_actions dqn)"
proof -
  from assms(2,3) have len: "length q = n_actions dqn" "0 < n_actions dqn"
    by (simp_all add: dqn_ok_def)
  then have q: "q \<noteq> []" by auto
  from argmax_first_max [OF q] len obtain k where
    k: "argmax q = Inr (int k)" "k < n_actions dqn"
    by auto
  from assms(1) len have "0 \<le> random_choice R k' (length q)"
    "random_choice R k' (length q) < int (n_actions dqn)" for k'
    by (simp_all add: prng_ok_def)
  with k show ?thesis
    by (simp add: select_action_eq [OF assms(3) q])
qed

theorem select_action_valid_index_witness:
  "prng_ok demo_prng \<and> dqn_ok demo_dqn \<and>
   dqn_apply demo_dqn (1, 2) (Array [Scalar 1, Scalar 2]) = Inr [Finite 3, Finite 6] \<and>
   select_action demo_dqn demo_prng 3 (1, 2) (Array [Scalar 1, Scalar 2]) (1 / 2) = Inr 1 \<and>
   (0::int) \<le> 1 \<and> (1::int) < int (n_actions demo_dqn)"
proof -
  have q: "dqn_apply demo_dqn (1, 2) (Array [Scalar 1, Scalar 2]) = Inr [Finite 3, Finite 6]"
    by (simp add: demo_dqn_def to_float32_small)
  have e: "select_action demo_dqn demo_prng 3 (1, 2) (Array [Scalar 1, Scalar 2]) (1 / 2) = Inr 1"
    by (simp add: select_action_def demo_dqn_def demo_prng_def argmax_def max_value_def fmax_def
        to_float32_small)
  from select_action_valid_index [OF demo_prng_ok demo_dqn_ok q, of 3 "1 / 2"] e
  have "(0::int) \<le> 1 \<and> (1::int) < int (n_actions demo_dqn)" by simp
  with demo_prng_ok demo_dqn_ok q e show ?thesis by simp
qed

lemma getitem_arr_arange:
  assumes "q \<noteq> []"
  shows "getitem_arr (vec q) (arange (length q)) = Inr (vec q)"
proof -
  have "map (\<lambda>i. map Scalar q ! clamp_index (int i) (length q)) [0..<length q] = map Scalar q"
    by (rule nth_equalityI) (simp_all add: clamp_index_id)
  with assms show ?thesis
    by (simp add: getitem_arr_def vec_def arange_def comp_def)
qed

lemma getitem_arr_scalar:
  "k < length q \<Longrightarrow> getitem_arr (vec q) (Scalar (int k)) = Inr (Scalar (q ! k))"
  by (auto simp: getitem_arr_def vec_def clamp_index_id)

lemma td_target_double_dqn_same_params:
  "td_target_double_dqn dqn p p reward dn next_state gamma =
     td_target dqn p reward dn next_state gamma"
proof (cases "dqn_apply dqn p next_state")
  case (Inl e)
  then show ?thesis by (simp add: td_target_double_dqn_def td_target_def)
next
  case (Inr q)
  show ?thesis
  proof (cases "q = []")
    case True
    with Inr show ?thesis
      by (simp add: td_target_double_dqn_def td_target_def argmax_def amax_def)
  next
    case False
    from argmax_first_max [OF False] obtain k where
      k: "argmax q = Inr (int k)" "k < length q" "q ! k = max_value q"
      by blast
    with Inr False show ?thesis
      by (simp add: td_target_double_dqn_def td_target_def amax_def getitem_arr_arange
          getitem_arr_scalar)
  qed
qed

lemma compute_loss_double_dqn_unfold:
  assumes "dqn_apply dqn p ns = Inr nq" "dqn_apply dqn tp ns = Inr tq"
    and "argmax nq = Inr (int a)" "a < length tq"
  shows "compute_loss_double_dqn dqn p tp (s, act, r, dn, ns) gamma =
           bindE (q_value_at dqn p s act) (\<lambda>q_value.
           bindE (bootstrap_target r gamma dn (Scalar (tq ! a))) (squared_error q_value))"
proof -
  from assms(4) have "tq \<noteq> []" by auto
  with assms show ?thesis
    by (simp add: compute_loss_double_dqn_def td_target_double_dqn_def getitem_arr_arange
        getitem_arr_scalar)
qed

lemma compute_loss_unfold:
  assumes "dqn_apply dqn tp ns = Inr tq" "tq \<noteq> []"
  shows "compute_loss dqn p tp (s, act, r, dn, ns) gamma =
           bindE (q_value_at dqn p s act) (\<lambda>q_value.
           bindE (bootstrap_target r gamma dn (Scalar (max_value tq))) (squared_error q_value))"
  using assms by (simp add: compute_loss_def td_target_def amax_def)

text \<open>
  C3. With the same parameters as current and target parameters, the double-DQN loss and
  the vanilla loss are equal, for every transition and gamma (and raise the same exception
  when they raise). In general the two losses have the same predicted value and the same
  loss form and differ in one value of the TD target: where the networks return Q-values
  for the next state, the double-DQN target uses the target network's Q-value at the first
  action that is greedy under the current parameters, and the vanilla target uses the
  largest Q-value of the target network. Q-values may be infinities or NaN.
\<close>

theorem double_dqn_vs_vanilla:
  "compute_loss_double_dqn dqn p p transition gamma = compute_loss dqn p p transition gamma \<and>
   (\<forall>nq tq. dqn_apply dqn p ns = Inr nq \<longrightarrow> dqn_apply dqn tp ns = Inr tq \<longrightarrow>
      nq \<noteq> [] \<longrightarrow> length tq = length nq \<longrightarrow>
      (\<exists>a. argmax nq = Inr (int a) \<and> a < length nq \<and> nq ! a = max_value nq \<and>
         compute_loss_double_dqn dqn p tp (s, act, r, dn, ns) gamma =
           bindE (q_value_at dqn p s act) (\<lambda>q_value.
           bindE (bootstrap_target r gamma dn (Scalar (tq ! a))) (squared_error q_value)) \<and>
         compute_loss dqn p tp (s, act, r, dn, ns) gamma =
           bindE (q_value_at dqn p s act) (\<lambda>q_value.
           bindE (bootstrap_target r gamma dn (Scalar (max_value tq)))
             (squared_error q_value))))"
proof (intro conjI allI impI)
  show "compute_loss_double_dqn dqn p p transition gamma = compute_loss dqn p p transition gamma"
    by (simp add: compute_loss_double_dqn_def compute_loss_def td_target_double_dqn_same_params
        split: prod.splits)
next
  fix nq tq
  assume h: "dqn_apply dqn p ns = Inr nq" "dqn_apply dqn tp ns = Inr tq" "nq \<noteq> []"
    "length tq = length nq"
  from argmax_first_max [OF h(3)] obtain a where
    a: "argmax nq = Inr (int a)" "a < length nq" "nq ! a = max_value nq"
    by blast
  from h(3,4) have tq: "tq \<noteq> []" by auto
  from a(2) h(4) have "a < length tq" by simp
  from compute_loss_double_dqn_unfold [OF h(1,2) a(1) this] compute_loss_unfold [OF h(2) tq] a
  show "\<exists>a. argmax nq = Inr (int a) \<and> a < length nq \<and> nq ! a = max_value nq \<and>
         compute_loss_double_dqn dqn p tp (s, act, r, dn, ns) gamma =
           bindE (q_value_at dqn p s act) (\<lambda>q_value.
           bindE (bootstrap_target r gamma dn (Scalar (tq ! a))) (squared_error q_value)) \<and>
         compute_loss dqn p tp (s, act, r, dn, ns) gamma =
           bindE (q_value_at dqn p s act) (\<lambda>q_value.
           bindE (bootstrap_target r gamma dn (Scalar (max_value tq)))
             (squared_error q_value))"
    by blast
qed

lemmas loss_simps =
  compute_loss_def compute_loss_double_dqn_def q_value_at_def td_target_def
  td_target_double_dqn_def bootstrap_target_def squared_error_def binop_def
  broadcast_shapes_def getitem_arr_def vec_def arange_def amax_def argmax_def clamp_index_def
  normalize_index_def demo_dqn_def numeral_2_eq_2 max_value_def fmax_def fsub_def
  to_float32_small

theorem double_dqn_vs_vanilla_witness:
  "dqn_apply demo_dqn (1, 2) (Array [Scalar 1]) = Inr [Finite 1, Finite 2] \<and>
   dqn_apply demo_dqn (3, 2) (Array [Scalar 1]) = Inr [Finite 3, Finite 2] \<and>
   [Finite 1, Finite 2] \<noteq> [] \<and> length [Finite 3, Finite 2] = length [Finite 1, Finite 2] \<and>
   argmax [Finite 1, Finite 2] = Inr 1 \<and>
   compute_loss_double_dqn demo_dqn (1, 2) (3, 2)
     (Array [Scalar 1], Array [Scalar 0], Array [Scalar 1], Array [Scalar False],
      Array [Scalar 1]) (1 / 2) = Inr (Finite 1) \<and>
   compute_loss demo_dqn (1, 2) (3, 2)
     (Array [Scalar 1], Array [Scalar 0], Array [Scalar 1], Array [Scalar False],
      Array [Scalar 1]) (1 / 2) = Inr (Finite (9 / 4)) \<and>
   compute_loss_double_dqn demo_dqn (1, 2) (1, 2)
     (Array [Scalar 1], Array [Scalar 0], Array [Scalar 1], Array [Scalar False],
      Array [Scalar 1]) (1 / 2) = Inr (Finite 1) \<and>
   compute_loss demo_dqn (1, 2) (1, 2)
     (Array [Scalar 1], Array [Scalar 0], Array [Scalar 1], Array [Scalar False],
      Array [Scalar 1]) (1 / 2) = Inr (Finite 1)"
proof -
  let ?t = "(Array [Scalar (1::real)], Array [Scalar (0::int)], Array [Scalar (1::real)],
      Array [Scalar False], Array [Scalar (1::real)])"
  have q: "dqn_apply demo_dqn (1, 2) (Array [Scalar 1]) = Inr [Finite 1, Finite 2]"
    "dqn_apply demo_dqn (3, 2) (Array [Scalar 1]) = Inr [Finite 3, Finite 2]"
    "[Finite 1, Finite 2] \<noteq> []" "length [Finite 3, Finite 2] = length [Finite 1, Finite 2]"
    by (simp_all add: demo_dqn_def to_float32_small)
  have am: "argmax [Finite 1, Finite 2] = Inr 1"
    by (simp add: argmax_def max_value_def fmax_def)
  note t = double_dqn_vs_vanilla [of demo_dqn "(1, 2)" ?t "1 / 2" "Array [Scalar 1]" "(3, 2)"
      "Array [Scalar 1]" "Array [Scalar 0]" "Array [Scalar 1]" "Array [Scalar False]"]
  from t [THEN conjunct2, rule_format, OF q] am
  have d: "compute_loss_double_dqn demo_dqn (1, 2) (3, 2) ?t (1 / 2) =
      bindE (q_value_at demo_dqn (1, 2) (Array [Scalar 1]) (Array [Scalar 0])) (\<lambda>q_value.
      bindE (bootstrap_target (Array [Scalar 1]) (1 / 2) (Array [Scalar False])
        (Scalar ([Finite 3, Finite 2] ! 1))) (squared_error q_value))"
    and v: "compute_loss demo_dqn (1, 2) (3, 2) ?t (1 / 2) =
      bindE (q_value_at demo_dqn (1, 2) (Array [Scalar 1]) (Array [Scalar 0])) (\<lambda>q_value.
      bindE (bootstrap_target (Array [Scalar 1]) (1 / 2) (Array [Scalar False])
        (Scalar (max_value [Finite 3, Finite 2]))) (squared_error q_value))"
    by auto
  have d': "compute_loss_double_dqn demo_dqn (1, 2) (3, 2) ?t (1 / 2) = Inr (Finite 1)"
    unfolding d by (simp add: loss_simps)
  have v': "compute_loss demo_dqn (1, 2) (3, 2) ?t (1 / 2) = Inr (Finite (9 / 4))"
    unfolding v by (simp add: loss_simps)
  have s': "compute_loss demo_dqn (1, 2) (1, 2) ?t (1 / 2) = Inr (Finite 1)"
    by (simp add: loss_simps)
  then have s'': "compute_loss_double_dqn demo_dqn (1, 2) (1, 2) ?t (1 / 2) = Inr (Finite 1)"
    unfolding t [THEN conjunct1, symmetric] .
  from q am d' v' s' s'' show ?thesis by simp
qed

lemma broadcast_dims_same: "broadcast_dims xs xs = Some xs"
  by (induction xs) auto

lemma broadcast_shapes_same: "broadcast_shapes s s = Some s"
  by (simp add: broadcast_shapes_def broadcast_dims_same)

lemma broadcast_shapes_scalar_left: "broadcast_shapes [] s = Some s"
  by (simp add: broadcast_shapes_def)

lemma broadcast_shapes_scalar_right: "broadcast_shapes s [] = Some s"
  by (cases "rev s") (auto simp: broadcast_shapes_def)

lemma broadcast_to_scalar: "broadcast_to (Scalar c) s = Some (zeros c s)"
  by (induction s) auto

lemma zip_nd_zeros_left:
  "has_shape b s \<Longrightarrow> zip_nd f (zeros c s) b = map_ndarray (f c) b"
proof (induction b arbitrary: s)
  case (Scalar x)
  then show ?case by simp
next
  case (Array rs)
  then obtain n s' where s: "s = n # s'" "length rs = n" "\<forall>r \<in> set rs. has_shape r s'"
    by (auto split: list.splits)
  with Array.IH show ?case
    by (simp add: zip_replicate1)
qed

lemma zip_nd_zeros_right:
  "has_shape a s \<Longrightarrow> zip_nd f a (zeros c s) = map_ndarray (\<lambda>x. f x c) a"
proof (induction a arbitrary: s)
  case (Scalar x)
  then show ?case by simp
next
  case (Array rs)
  then obtain n s' where s: "s = n # s'" "length rs = n" "\<forall>r \<in> set rs. has_shape r s'"
    by (auto split: list.splits)
  with Array.IH show ?case
    by (simp add: zip_replicate2)
qed

lemma binop_scalar_left:
  assumes "has_shape b s" "0 \<notin> set s"
  shows "binop f (Scalar c) b = Inr (map_ndarray (f c) b)"
  using assms
  by (simp add: binop_def has_shape_shape broadcast_shapes_scalar_left broadcast_to_scalar
      broadcast_to_same zip_nd_zeros_left)

lemma binop_scalar_right:
  assumes "has_shape a s" "0 \<notin> set s"
  shows "binop f a (Scalar c) = Inr (map_ndarray (\<lambda>x. f x c) a)"
  using assms
  by (simp add: binop_def has_shape_shape broadcast_shapes_scalar_right broadcast_to_scalar
      broadcast_to_same zip_nd_zeros_right)

lemma binop_same_shape:
  assumes "has_shape a s" "has_shape b s" "0 \<notin> set s"
  shows "binop f a b = Inr (zip_nd f a b)"
  using assms
  by (simp add: binop_def has_shape_shape broadcast_shapes_same broadcast_to_same)

lemma has_shape_map: "has_shape a s \<Longrightarrow> has_shape (map_ndarray f a) s"
  by (induction a arbitrary: s) (auto split: list.splits)

lemma fadd_zero_right: "fadd x (Finite 0) = x"
  by (cases x) simp_all

lemma zip_nd_add_zero:
  "has_shape a s \<Longrightarrow> has_shape z s \<Longrightarrow> \<forall>x \<in> set_ndarray z. x = Finite 0 \<Longrightarrow>
     zip_nd fadd a z = a"
proof (induction a arbitrary: s z)
  case (Scalar x)
  then show ?case by (cases z) (auto simp: fadd_zero_right)
next
  case (Array rs)
  from Array.prems(1) obtain n s' where s: "s = n # s'" "length rs = n"
    "\<forall>r \<in> set rs. has_shape r s'"
    by (auto split: list.splits)
  with Array.prems(2) obtain zs where z: "z = Array zs" "length zs = n"
    "\<forall>r \<in> set zs. has_shape r s'"
    by (cases z) auto
  have "map (\<lambda>(x, y). zip_nd fadd x y) (zip rs zs) = rs"
  proof (rule nth_equalityI)
    show "length (map (\<lambda>(x, y). zip_nd fadd x y) (zip rs zs)) = length rs"
      using s z by simp
  next
    fix i assume "i < length (map (\<lambda>(x, y). zip_nd fadd x y) (zip rs zs))"
    with s z have i: "i < length rs" "i < length zs" by simp_all
    then have "rs ! i \<in> set rs" "zs ! i \<in> set zs" by simp_all
    moreover from this Array.prems(3) z have "\<forall>x \<in> set_ndarray (zs ! i). x = Finite 0" by auto
    ultimately have "zip_nd fadd (rs ! i) (zs ! i) = rs ! i"
      using Array.IH [of "rs ! i" s' "zs ! i"] s(3) z(3) by blast
    with i show "map (\<lambda>(x, y). zip_nd fadd x y) (zip rs zs) ! i = rs ! i" by simp
  qed
  with z show ?case by simp
qed

lemma bootstrap_target_done:
  assumes "has_shape reward s" "has_shape dn s" "0 \<notin> set s" "\<forall>d \<in> set_ndarray dn. d"
    and "is_finite v"
  shows "bootstrap_target reward gamma dn (Scalar v) = Inr (map_ndarray Finite reward)"
proof -
  define z where "z = map_ndarray (\<lambda>d. Finite 0) dn"
  from assms(5) obtain m where v: "v = Finite m" by (cases v) auto
  have all: "map_ndarray (\<lambda>d. Finite (of_bool d)) dn = map_ndarray (\<lambda>d. Finite 1) dn"
    using assms(4) by (intro ndarray.map_cong) auto
  have sh: "has_shape (map_ndarray f dn) s" for f :: "bool \<Rightarrow> float32"
    using assms(2) by (rule has_shape_map)
  have 1: "binop fsub (Scalar (Finite 1)) (map_ndarray (\<lambda>d. Finite (of_bool d)) dn) = Inr z"
    by (simp add: all binop_scalar_left [OF sh assms(3)] ndarray.map_comp comp_def z_def
        fsub_def)
  have zs: "has_shape z s" unfolding z_def by (rule sh)
  have 2: "binop fmul (Scalar (Finite gamma)) z = Inr z"
    by (simp add: binop_scalar_left [OF zs assms(3)]) (simp add: z_def ndarray.map_comp comp_def)
  have 3: "binop fmul z (Scalar v) = Inr z"
    by (simp add: binop_scalar_right [OF zs assms(3)] v)
      (simp add: z_def ndarray.map_comp comp_def)
  have rs: "has_shape (map_ndarray Finite reward) s"
    using assms(1) by (rule has_shape_map)
  have "\<forall>x \<in> set_ndarray z. x = Finite 0" by (auto simp: z_def ndarray.set_map)
  with rs zs have "zip_nd fadd (map_ndarray Finite reward) z = map_ndarray Finite reward"
    by (rule zip_nd_add_zero)
  then have 4: "binop fadd (map_ndarray Finite reward) z = Inr (map_ndarray Finite reward)"
    by (simp add: binop_same_shape [OF rs zs assms(3)])
  from 1 2 3 4 show ?thesis by (simp add: bootstrap_target_def)
qed

lemma td_target_done:
  assumes "has_shape reward sh" "has_shape dn sh" "0 \<notin> set sh" "\<forall>d \<in> set_ndarray dn. d"
    and "dqn_apply dqn tp ns = Inr q" "q \<noteq> []" "\<forall>x \<in> set q. is_finite x"
  shows "td_target dqn tp reward dn ns gamma = Inr (map_ndarray Finite reward)"
proof -
  from assms(6,7) have "is_finite (max_value q)"
    using max_value_in by blast
  from bootstrap_target_done [OF assms(1-4) this] assms(5,6) show ?thesis
    by (simp add: td_target_def amax_def)
qed

text \<open>
  C2 (as amended). For a transition whose \<open>done\<close> is true (in every entry; reward and
  \<open>done\<close> of one shape, without a dimension of size 0), whenever the Q-values that the
  target network returns for the next state are finite, the TD target of \<open>compute_loss\<close>
  is the reward and the loss is the squared error between the predicted value and the
  reward: the same for any two next states and target parameters with finite Q-values.
\<close>

theorem terminal_masking:
  assumes "has_shape reward sh" "has_shape dn sh" "0 \<notin> set sh" "\<forall>d \<in> set_ndarray dn. d"
    and "dqn_apply dqn tp ns = Inr q" "q \<noteq> []" "\<forall>x \<in> set q. is_finite x"
    and "dqn_apply dqn tp' ns' = Inr q'" "q' \<noteq> []" "\<forall>x \<in> set q'. is_finite x"
  shows "td_target dqn tp reward dn ns gamma = Inr (map_ndarray Finite reward) \<and>
         td_target dqn tp' reward dn ns' gamma = Inr (map_ndarray Finite reward) \<and>
         compute_loss dqn p tp (s, a, reward, dn, ns) gamma =
           compute_loss dqn p tp' (s, a, reward, dn, ns') gamma \<and>
         compute_loss dqn p tp (s, a, reward, dn, ns) gamma =
           bindE (q_value_at dqn p s a)
             (\<lambda>q_value. squared_error q_value (map_ndarray Finite reward))"
  using td_target_done [OF assms(1-7)] td_target_done [OF assms(1-4,8-10)]
  by (simp add: compute_loss_def)

theorem terminal_masking_witness:
  "has_shape (Array [Scalar (2::real)]) [1] \<and> has_shape (Array [Scalar True]) [1] \<and>
   0 \<notin> set [1::nat] \<and> True \<in> set_ndarray (Array [Scalar True]) \<and>
   dqn_apply demo_dqn (1, 2) (Array [Scalar 1, Scalar 2]) = Inr [Finite 3, Finite 6] \<and>
   is_finite (Finite 3) \<and> is_finite (Finite 6) \<and>
   dqn_apply demo_dqn (5, - 1) (Array [Scalar 10]) = Inr [Finite 50, Finite (- 10)] \<and>
   is_finite (Finite 50) \<and> is_finite (Finite (- 10)) \<and>
   td_target demo_dqn (1, 2) (Array [Scalar 2]) (Array [Scalar True])
     (Array [Scalar 1, Scalar 2]) (99 / 100) = Inr (Array [Scalar (Finite 2)]) \<and>
   td_target demo_dqn (5, - 1) (Array [Scalar 2]) (Array [Scalar True])
     (Array [Scalar 10]) (99 / 100) = Inr (Array [Scalar (Finite 2)]) \<and>
   compute_loss demo_dqn (1, 2) (1, 2)
     (Array [Scalar 1, Scalar 2], Array [Scalar 1], Array [Scalar 2], Array [Scalar True],
      Array [Scalar 1, Scalar 2]) (99 / 100) = Inr (Finite 16) \<and>
   compute_loss demo_dqn (1, 2) (5, - 1)
     (Array [Scalar 1, Scalar 2], Array [Scalar 1], Array [Scalar 2], Array [Scalar True],
      Array [Scalar 10]) (99 / 100) = Inr (Finite 16)"
proof -
  have h: "has_shape (Array [Scalar (2::real)]) [1]" "has_shape (Array [Scalar True]) [1]"
    "0 \<notin> set [1::nat]" "\<forall>d \<in> set_ndarray (Array [Scalar True]). d"
    by simp_all
  have q: "dqn_apply demo_dqn (1, 2) (Array [Scalar 1, Scalar 2]) = Inr [Finite 3, Finite 6]"
    "[Finite 3, Finite 6] \<noteq> []" "\<forall>x \<in> set [Finite 3, Finite 6]. is_finite x"
    "dqn_apply demo_dqn (5, - 1) (Array [Scalar 10]) = Inr [Finite 50, Finite (- 10)]"
    "[Finite 50, Finite (- 10)] \<noteq> []" "\<forall>x \<in> set [Finite 50, Finite (- 10)]. is_finite x"
    by (simp_all add: demo_dqn_def to_float32_small)
  have v: "bindE (q_value_at demo_dqn (1, 2) (Array [Scalar 1, Scalar 2]) (Array [Scalar 1]))
      (\<lambda>q_value. squared_error q_value (map_ndarray Finite (Array [Scalar 2]))) =
      Inr (Finite 16)"
    by (simp add: loss_simps)
  note t = terminal_masking [OF h q, of "99 / 100" "(1, 2)" "Array [Scalar 1, Scalar 2]"
      "Array [Scalar 1]"]
  from v have a: "compute_loss demo_dqn (1, 2) (1, 2)
     (Array [Scalar 1, Scalar 2], Array [Scalar 1], Array [Scalar 2], Array [Scalar True],
      Array [Scalar 1, Scalar 2]) (99 / 100) = Inr (Finite 16)"
    unfolding t [THEN conjunct2, THEN conjunct2, THEN conjunct2] .
  note e = t [THEN conjunct2, THEN conjunct2, THEN conjunct1]
  from a have b: "compute_loss demo_dqn (1, 2) (5, - 1)
     (Array [Scalar 1, Scalar 2], Array [Scalar 1], Array [Scalar 2], Array [Scalar True],
      Array [Scalar 10]) (99 / 100) = Inr (Finite 16)"
    unfolding e [symmetric] .
  from t have "td_target demo_dqn (1, 2) (Array [Scalar 2]) (Array [Scalar True])
     (Array [Scalar 1, Scalar 2]) (99 / 100) = Inr (Array [Scalar (Finite 2)])"
    "td_target demo_dqn (5, - 1) (Array [Scalar 2]) (Array [Scalar True])
     (Array [Scalar 10]) (99 / 100) = Inr (Array [Scalar (Finite 2)])"
    by simp_all
  with a b h(1-3) q show ?thesis by simp
qed

text \<open>
  C2 as stated, for every transition with \<open>done\<close> true, fails when a Q-value of the next
  state overflows: the mask is the product with \<open>1.0 - done = 0\<close>, and \<open>0 * inf\<close> is
  NaN. With the next state \<open>[10^38]\<close> and the target weights \<open>(100, 1)\<close> the Q-values are
  \<open>[inf, 10^38]\<close>, the TD target is NaN and not the reward 2, and the loss is NaN, where it
  is 16 for the next state \<open>[1, 2]\<close> and the target weights \<open>(1, 2)\<close>.
\<close>

theorem terminal_masking_overflow_counterexample:
  "dqn_apply demo_dqn (100, 1) (Array [Scalar (10 ^ 38)]) = Inr [PosInf, Finite (10 ^ 38)] \<and>
   td_target demo_dqn (100, 1) (Array [Scalar 2]) (Array [Scalar True])
     (Array [Scalar (10 ^ 38)]) (99 / 100) = Inr (Array [Scalar NaN]) \<and>
   compute_loss demo_dqn (1, 2) (100, 1)
     (Array [Scalar 1, Scalar 2], Array [Scalar 1], Array [Scalar 2], Array [Scalar True],
      Array [Scalar (10 ^ 38)]) (99 / 100) = Inr NaN \<and>
   compute_loss demo_dqn (1, 2) (1, 2)
     (Array [Scalar 1, Scalar 2], Array [Scalar 1], Array [Scalar 2], Array [Scalar True],
      Array [Scalar 1, Scalar 2]) (99 / 100) = Inr (Finite 16)"
proof -
  have q: "dqn_apply demo_dqn (100, 1) (Array [Scalar (10 ^ 38)]) = Inr [PosInf, Finite (10 ^ 38)]"
    by (simp add: demo_dqn_def to_float32_def)
  have t: "td_target demo_dqn (100, 1) (Array [Scalar 2]) (Array [Scalar True])
     (Array [Scalar (10 ^ 38)]) (99 / 100) = Inr (Array [Scalar NaN])"
    using q
    by (simp add: td_target_def amax_def max_value_def fmax_def bootstrap_target_def binop_def
        broadcast_shapes_def fsub_def)
  have l: "compute_loss demo_dqn (1, 2) (100, 1)
     (Array [Scalar 1, Scalar 2], Array [Scalar 1], Array [Scalar 2], Array [Scalar True],
      Array [Scalar (10 ^ 38)]) (99 / 100) = Inr NaN"
    using t
    by (simp add: compute_loss_def)
      (simp add: q_value_at_def squared_error_def binop_def broadcast_shapes_def getitem_arr_def
        vec_def arange_def clamp_index_def normalize_index_def demo_dqn_def numeral_2_eq_2
        fsub_def to_float32_small)
  have f: "compute_loss demo_dqn (1, 2) (1, 2)
     (Array [Scalar 1, Scalar 2], Array [Scalar 1], Array [Scalar 2], Array [Scalar True],
      Array [Scalar 1, Scalar 2]) (99 / 100) = Inr (Finite 16)"
    by (simp add: loss_simps)
  from q t l f show ?thesis by simp
qed

text \<open>
  C5. \<open>update_target\<close> returns the train state with \<open>target_params\<close> equal to the current
  \<open>params\<close>; \<open>params\<close>, the optimizer state and every other field are unchanged; a second
  call changes nothing more (the target parameters are the same after one call and after
  two).
\<close>

theorem update_target_copies_params:
  "target_params (update_target s) = params s \<and>
   params (update_target s) = params s \<and>
   opt_state (update_target s) = opt_state s \<and>
   step (update_target s) = step s \<and>
   apply_fn (update_target s) = apply_fn s \<and>
   tx (update_target s) = tx s \<and>
   DQNTrainState.more (update_target s) = DQNTrainState.more s \<and>
   target_params (update_target (update_target s)) = target_params (update_target s) \<and>
   update_target (update_target s) = update_target s"
  by (simp add: update_target_def)

end
